theory Spec2Isabelle
  imports Complex_Main "HOL-Library.Word"
begin

unbundle bit_operations_syntax

section \<open>Go primitives used by the fingerprinting code\<close>

text \<open>
  Go's \<open>int\<close> is modelled by \<open>int\<close>; the quantities the code stores in it (bin indices,
  sample counts, millisecond offsets) stay far inside the 64-bit range.
  A \<open>float64\<close> is modelled by the real number it denotes; the model covers finite values
  only (no NaN, no infinities). Comparisons of such values and their conversion to \<open>int\<close>
  are exact. The operations that round their result are parameters of the model, gathered
  in a record \<open>ops\<close> that every function computing with float64 values receives:
  subtraction, multiplication, division and \<open>cmplx.Abs\<close>. Nothing is assumed about them;
  what a theorem takes from float64 arithmetic is among its hypotheses. A conversion
  \<open>float64(n)\<close> of an integer is taken as exact, as it is for the counts, indices and
  sample rates that occur (below \<open>2^53\<close>).
  A decimal constant of the code stands for the float64 nearest to it; \<open>0.02\<close>, \<open>0.05\<close>
  and \<open>0.1\<close>, which are not float64 values, are defined below with the exact value of
  that float64.
\<close>

record Float64 =
  f64_sub :: "real \<Rightarrow> real \<Rightarrow> real"
  f64_mul :: "real \<Rightarrow> real \<Rightarrow> real"
  f64_div :: "real \<Rightarrow> real \<Rightarrow> real"
  f64_abs :: "complex \<Rightarrow> real"

definition float64_0_02 :: real where
  \<comment> \<open>The float64 nearest to 0.02.\<close>
  "float64_0_02 = 5764607523034235 / 2 ^ 58"

definition float64_0_05 :: real where
  \<comment> \<open>The float64 nearest to 0.05.\<close>
  "float64_0_05 = 3602879701896397 / 2 ^ 56"

definition float64_0_1 :: real where
  \<comment> \<open>The float64 nearest to 0.1.\<close>
  "float64_0_1 = 3602879701896397 / 2 ^ 55"

definition exactOps :: Float64 where
  \<comment> \<open>The operations without rounding. They are those of float64 on operands whose exact
      result is a float64 value, as in the examples that use them.\<close>
  "exactOps = \<lparr>f64_sub = (-), f64_mul = (*), f64_div = (/), f64_abs = cmod\<rparr>"

definition exampleOps :: Float64 where
  \<comment> \<open>As \<open>exactOps\<close>, with the two quotients of the scoring examples that float64
      rounds: \<open>5.0 / 100.0\<close> and \<open>5.0 / 50.0\<close>.\<close>
  "exampleOps =
     exactOps\<lparr>f64_div :=
       (\<lambda>x y. if x = 5 \<and> y = 100 then float64_0_05
              else if x = 5 \<and> y = 50 then float64_0_1
              else x / y)\<rparr>"

definition go_quot :: "int \<Rightarrow> int \<Rightarrow> int" where
  \<comment> \<open>Go's integer division \<open>a / b\<close>: the quotient is truncated toward zero.\<close>
  "go_quot a b = sgn a * sgn b * (\<bar>a\<bar> div \<bar>b\<bar>)"

definition go_int :: "real \<Rightarrow> int" where
  \<comment> \<open>Go's conversion \<open>int(x)\<close> of a float64: the fraction is discarded (truncation toward zero).\<close>
  "go_int x = (if 0 \<le> x then \<lfloor>x\<rfloor> else \<lceil>x\<rceil>)"

datatype error = Panic | Failure string

definition slice_from :: "'a list \<Rightarrow> int \<Rightarrow> 'a list option" where
  \<comment> \<open>Go's \<open>s[lo:]\<close>; the bounds check fails (panic) unless \<open>0 \<le> lo \<le> len(s)\<close>.\<close>
  "slice_from s lo = (if 0 \<le> lo \<and> lo \<le> int (length s) then Some (drop (nat lo) s) else None)"

definition slice_to :: "'a list \<Rightarrow> int \<Rightarrow> 'a list option" where
  \<comment> \<open>Go's \<open>s[:hi]\<close> for \<open>hi\<close> up to the length; panics when \<open>hi\<close> is negative.\<close>
  "slice_to s hi = (if 0 \<le> hi \<and> hi \<le> int (length s) then Some (take (nat hi) s) else None)"

definition go_copy :: "'a list \<Rightarrow> 'a list \<Rightarrow> 'a list" where
  \<comment> \<open>Go's \<open>copy(dst, src)\<close>: the first \<open>min(len(dst), len(src))\<close> cells of \<open>dst\<close> are
      overwritten, also when the two slices overlap. The result is the new content of \<open>dst\<close>.\<close>
  "go_copy dst src =
     (let n = min (length dst) (length src) in take n src @ drop n dst)"

section \<open>Constants of package fingerprint\<close>

definition PEAK_THRESHOLD :: real where "PEAK_THRESHOLD = float64_0_02"
definition MIN_HASH_TIME_DELTA :: int where "MIN_HASH_TIME_DELTA = 0"
definition MAX_HASH_TIME_DELTA :: int where "MAX_HASH_TIME_DELTA = 2000"
definition FAN_VALUE :: nat where "FAN_VALUE = 15"
definition WINDOW_SIZE :: int where "WINDOW_SIZE = 4096"

section \<open>Frequency bands\<close>

record FrequencyBand =
  Start :: int
  End :: int

definition clampBand :: "int \<Rightarrow> FrequencyBand \<Rightarrow> FrequencyBand" where
  \<comment> \<open>The body of the clamping loop: first \<open>End\<close>, then \<open>Start\<close>.\<close>
  "clampBand maxBin b =
     (let b1 = (if End b > maxBin then b\<lparr>End := maxBin\<rparr> else b);
          b2 = (if Start b1 > maxBin then b1\<lparr>Start := maxBin\<rparr> else b1)
      in b2)"

definition getFrequencyBands :: "int \<Rightarrow> int \<Rightarrow> FrequencyBand list" where
  \<comment> \<open>The quotients are taken exactly. With the window size 4096 of the code and a sample
      rate of 2 or more this is what float64 yields: \<open>binSize\<close> is a division by 2048, which
      does not round, and a rounded quotient has the integer part of the exact one. At the
      sample rates 0 and 1 \<open>binSize\<close> is zero, the quotients are infinite and their
      conversion to \<open>int\<close> depends on the platform; the model does not cover them.\<close>
  "getFrequencyBands sampleRate windowSize =
     (let nyquist = go_quot sampleRate 2;
          binSize = real_of_int nyquist / real_of_int (go_quot windowSize 2);
          bands =
            [\<lparr>Start = go_int (40 / binSize), End = go_int (80 / binSize)\<rparr>,
             \<lparr>Start = go_int (80 / binSize), End = go_int (120 / binSize)\<rparr>,
             \<lparr>Start = go_int (120 / binSize), End = go_int (180 / binSize)\<rparr>,
             \<lparr>Start = go_int (180 / binSize), End = go_int (300 / binSize)\<rparr>,
             \<lparr>Start = go_int (300 / binSize), End = go_int (2000 / binSize)\<rparr>,
             \<lparr>Start = go_int (2000 / binSize), End = go_int (5000 / binSize)\<rparr>];
          maxBin = go_quot windowSize 2 - 1
      in map (clampBand maxBin) bands)"

section \<open>SHA-1, hexadecimal encoding and decimal formatting\<close>

text \<open>
  The fingerprint hash is built with three library functions: \<open>fmt.Sprintf\<close> with the verb
  \<open>%d\<close>, \<open>crypto/sha1\<close> and \<open>hex.EncodeToString\<close>. They are modelled by what they
  compute: the decimal numeral of an integer, the SHA-1 digest of FIPS 180-4, and two
  lower-case hexadecimal digits per byte.
\<close>

type_synonym byte = "8 word"
type_synonym word32 = "32 word"

definition rotl32 :: "nat \<Rightarrow> word32 \<Rightarrow> word32" where
  "rotl32 n w = push_bit n w OR drop_bit (32 - n) w"

definition be_bytes32 :: "word32 \<Rightarrow> byte list" where
  \<comment> \<open>The four bytes of a word, most significant first.\<close>
  "be_bytes32 w =
     [ucast (drop_bit 24 w), ucast (drop_bit 16 w), ucast (drop_bit 8 w), ucast w]"

definition be_bytes64 :: "64 word \<Rightarrow> byte list" where
  "be_bytes64 w =
     [ucast (drop_bit 56 w), ucast (drop_bit 48 w), ucast (drop_bit 40 w),
      ucast (drop_bit 32 w), ucast (drop_bit 24 w), ucast (drop_bit 16 w),
      ucast (drop_bit 8 w), ucast w]"

fun be_words32 :: "byte list \<Rightarrow> word32 list" where
  \<comment> \<open>Groups of four bytes read as big-endian words; a short tail is dropped.\<close>
  "be_words32 (a # b # c # d # rest) =
     (push_bit 24 (ucast a) OR push_bit 16 (ucast b) OR push_bit 8 (ucast c) OR ucast d)
       # be_words32 rest"
| "be_words32 _ = []"

definition sha1_pad :: "byte list \<Rightarrow> byte list" where
  \<comment> \<open>The bit 1, zero bits up to 56 modulo 64 bytes, and the bit length on 64 bits.\<close>
  "sha1_pad msg =
     msg @ [0x80] @ replicate ((119 - length msg mod 64) mod 64) 0
       @ be_bytes64 (of_nat (8 * length msg))"

definition sha1_schedule :: "word32 list \<Rightarrow> word32 list" where
  \<comment> \<open>The 80 words of the message schedule, from the 16 words of a block.\<close>
  "sha1_schedule ws =
     fold (\<lambda>t w. w @ [rotl32 1 (w ! (t - 3) XOR w ! (t - 8) XOR w ! (t - 14) XOR w ! (t - 16))])
       [16..<80] ws"

type_synonym sha1_state = "word32 \<times> word32 \<times> word32 \<times> word32 \<times> word32"

definition sha1_f :: "nat \<Rightarrow> word32 \<Rightarrow> word32 \<Rightarrow> word32 \<Rightarrow> word32" where
  "sha1_f t b c d =
     (if t < 20 then (b AND c) OR (NOT b AND d)
      else if t < 40 then b XOR c XOR d
      else if t < 60 then (b AND c) OR (b AND d) OR (c AND d)
      else b XOR c XOR d)"

definition sha1_k :: "nat \<Rightarrow> word32" where
  "sha1_k t =
     (if t < 20 then 0x5A827999
      else if t < 40 then 0x6ED9EBA1
      else if t < 60 then 0x8F1BBCDC
      else 0xCA62C1D6)"

definition sha1_round :: "word32 list \<Rightarrow> nat \<Rightarrow> sha1_state \<Rightarrow> sha1_state" where
  "sha1_round w t s =
     (case s of (a, b, c, d, e) \<Rightarrow>
        (rotl32 5 a + sha1_f t b c d + e + sha1_k t + w ! t, a, rotl32 30 b, c, d))"

definition sha1_block :: "sha1_state \<Rightarrow> byte list \<Rightarrow> sha1_state" where
  "sha1_block h blk =
     (case h of (h0, h1, h2, h3, h4) \<Rightarrow>
        (case fold (sha1_round (sha1_schedule (be_words32 blk))) [0..<80] h of
           (a, b, c, d, e) \<Rightarrow> (h0 + a, h1 + b, h2 + c, h3 + d, h4 + e)))"

fun sha1_blocks :: "nat \<Rightarrow> sha1_state \<Rightarrow> byte list \<Rightarrow> sha1_state" where
  \<comment> \<open>\<open>n\<close> blocks of 64 bytes, absorbed in order.\<close>
  "sha1_blocks 0 h bs = h"
| "sha1_blocks (Suc n) h bs = sha1_blocks n (sha1_block h (take 64 bs)) (drop 64 bs)"

definition sha1_sum :: "byte list \<Rightarrow> byte list" where
  \<comment> \<open>\<open>sha1.New()\<close>, one \<open>Write\<close> and \<open>Sum(nil)\<close>: the 20 bytes of the digest.\<close>
  "sha1_sum msg =
     (let p = sha1_pad msg in
      case sha1_blocks (length p div 64)
             (0x67452301, 0xEFCDAB89, 0x98BADCFE, 0x10325476, 0xC3D2E1F0) p of
        (h0, h1, h2, h3, h4) \<Rightarrow>
          be_bytes32 h0 @ be_bytes32 h1 @ be_bytes32 h2 @ be_bytes32 h3 @ be_bytes32 h4)"

definition hextable :: string where
  "hextable = ''0123456789abcdef''"

definition hex_EncodeToString :: "byte list \<Rightarrow> string" where
  "hex_EncodeToString bs =
     concat (map (\<lambda>b. [hextable ! unat (drop_bit 4 b), hextable ! unat (b AND 0x0f)]) bs)"

definition string_bytes :: "string \<Rightarrow> byte list" where
  \<comment> \<open>\<open>[]byte(s)\<close>: the bytes of the string; a \<open>char\<close> is one byte.\<close>
  "string_bytes s = map of_char s"

definition digit_char :: "nat \<Rightarrow> char" where
  "digit_char d = ''0123456789'' ! d"

function decimal_nat :: "nat \<Rightarrow> string" where
  "decimal_nat n = (if n < 10 then [digit_char n] else decimal_nat (n div 10) @ [digit_char (n mod 10)])"
  by pat_completeness auto
termination
  by (relation "measure id") auto

declare decimal_nat.simps [simp del]

definition sprintf_d :: "int \<Rightarrow> string" where
  \<comment> \<open>\<open>fmt.Sprintf("%d", n)\<close>.\<close>
  "sprintf_d n = (if n < 0 then CHR ''-'' # decimal_nat (nat (- n)) else decimal_nat (nat n))"

definition sha1_hex :: "string \<Rightarrow> string" where
  \<comment> \<open>The digest of the bytes of a string, in hexadecimal.\<close>
  "sha1_hex s = hex_EncodeToString (sha1_sum (string_bytes s))"

section \<open>Peaks and fingerprints\<close>

record Peak =
  Time :: real
  TimeMS :: real
  Magnitude :: real
  FreqBin :: int

record Fingerprint =
  Hash :: string
  SongID :: int
  Offset :: int

definition newFingerprint :: "int \<Rightarrow> int \<Rightarrow> real \<Rightarrow> Peak \<Rightarrow> Fingerprint" where
  \<comment> \<open>The block both encoders run for a pair they keep: format, hash, encode, and build
      the fingerprint (its \<open>SongID\<close> keeps Go's zero value).\<close>
  "newFingerprint anchorBin targetBin timeDelta anchor =
     (let hashInput =
            sprintf_d anchorBin @ ''|'' @ sprintf_d targetBin @ ''|'' @ sprintf_d (go_int timeDelta);
          hashBytes = sha1_sum (string_bytes hashInput);
          hashStr = hex_EncodeToString hashBytes
      in \<lparr>Hash = hashStr, SongID = 0, Offset = go_int (TimeMS anchor)\<rparr>)"

subsection \<open>The base encoder\<close>

function targetLoop ::
  "Float64 \<Rightarrow> Peak list \<Rightarrow> nat \<Rightarrow> Peak \<Rightarrow> nat \<Rightarrow> Fingerprint list \<Rightarrow> Fingerprint list" where
  \<comment> \<open>\<open>for j := i + 1; j < i+FAN_VALUE && j < len(peaks); j++\<close>, entered at \<open>j\<close>.\<close>
  "targetLoop ops peaks i anchor j fingerprints =
     (if j < i + FAN_VALUE \<and> j < length peaks then
        (let target = peaks ! j;
             timeDelta = f64_sub ops (TimeMS target) (TimeMS anchor)
         in if timeDelta \<le> real_of_int MIN_HASH_TIME_DELTA
               \<or> timeDelta > real_of_int MAX_HASH_TIME_DELTA
            then targetLoop ops peaks i anchor (j + 1) fingerprints
            else targetLoop ops peaks i anchor (j + 1)
                   (fingerprints @ [newFingerprint (FreqBin anchor) (FreqBin target) timeDelta anchor]))
      else fingerprints)"
  by pat_completeness auto
termination
  by (relation "measure (\<lambda>(ops, peaks, i, anchor, j, fingerprints). length peaks - j)") auto

declare targetLoop.simps [simp del]

function anchorLoop :: "Float64 \<Rightarrow> Peak list \<Rightarrow> nat \<Rightarrow> Fingerprint list \<Rightarrow> Fingerprint list" where
  \<comment> \<open>\<open>for i, anchor := range peaks\<close>, entered at \<open>i\<close>.\<close>
  "anchorLoop ops peaks i fingerprints =
     (if i < length peaks then
        anchorLoop ops peaks (i + 1) (targetLoop ops peaks i (peaks ! i) (i + 1) fingerprints)
      else fingerprints)"
  by pat_completeness auto
termination
  by (relation "measure (\<lambda>(ops, peaks, i, fingerprints). length peaks - i)") auto

declare anchorLoop.simps [simp del]

definition generateFingerprintsWithTolerance :: "Float64 \<Rightarrow> Peak list \<Rightarrow> bool \<Rightarrow> Fingerprint list" where
  "generateFingerprintsWithTolerance ops peaks microphoneTolerance = anchorLoop ops peaks 0 []"

definition GenerateFingerprints :: "Float64 \<Rightarrow> Peak list \<Rightarrow> Fingerprint list" where
  "GenerateFingerprints ops peaks = generateFingerprintsWithTolerance ops peaks False"

subsection \<open>The tolerance encoder\<close>

text \<open>
  The three nested loops share the slice \<open>fingerprints\<close> and the counter \<open>processed\<close>, and
  the innermost one can return from the function. Each loop yields \<open>Inl\<close> of the returned
  slice when the function has returned, and \<open>Inr\<close> of the two variables when it runs on.
  A bin of \<open>FreqBin + 1\<close> or \<open>FreqBin - 1\<close> that would wrap around in 64 bits lands outside
  0..2048 before and after wrapping, so the range test decides alike on \<open>int\<close>.
\<close>

definition tolerances :: "(int \<times> int) list" where
  "tolerances = [(-1, 0), (1, 0), (0, -1), (0, 1)]"

definition skipFactor :: nat where "skipFactor = 4"

fun toleranceLoop ::
  "Peak \<Rightarrow> Peak \<Rightarrow> real \<Rightarrow> (int \<times> int) list \<Rightarrow> Fingerprint list \<Rightarrow> int
     \<Rightarrow> Fingerprint list + (Fingerprint list \<times> int)" where
  "toleranceLoop anchor target timeDelta [] fingerprints processed = Inr (fingerprints, processed)"
| "toleranceLoop anchor target timeDelta (tol # rest) fingerprints processed =
     (let anchorBin = FreqBin anchor + fst tol;
          targetBin = FreqBin target + snd tol
      in if anchorBin < 0 \<or> targetBin < 0 \<or> anchorBin > 2048 \<or> targetBin > 2048
         then toleranceLoop anchor target timeDelta rest fingerprints processed
         else
           (let fingerprints' = fingerprints @ [newFingerprint anchorBin targetBin timeDelta anchor];
                processed' = processed + 1
            in if processed' > 10000 then Inl fingerprints'
               else toleranceLoop anchor target timeDelta rest fingerprints' processed'))"

function tolTargetLoop ::
  "Float64 \<Rightarrow> Peak list \<Rightarrow> nat \<Rightarrow> Peak \<Rightarrow> nat \<Rightarrow> Fingerprint list \<Rightarrow> int
     \<Rightarrow> Fingerprint list + (Fingerprint list \<times> int)" where
  "tolTargetLoop ops peaks i anchor j fingerprints processed =
     (if j < i + FAN_VALUE \<and> j < length peaks then
        (let target = peaks ! j;
             timeDelta = f64_sub ops (TimeMS target) (TimeMS anchor)
         in if timeDelta \<le> real_of_int MIN_HASH_TIME_DELTA
               \<or> timeDelta > real_of_int MAX_HASH_TIME_DELTA
            then tolTargetLoop ops peaks i anchor (j + 1) fingerprints processed
            else
              (case toleranceLoop anchor target timeDelta tolerances fingerprints processed of
                 Inl r \<Rightarrow> Inl r
               | Inr (fingerprints', processed') \<Rightarrow>
                   tolTargetLoop ops peaks i anchor (j + 1) fingerprints' processed'))
      else Inr (fingerprints, processed))"
  by pat_completeness auto
termination
  by (relation "measure (\<lambda>(ops, peaks, i, anchor, j, fingerprints, processed). length peaks - j)") auto

declare tolTargetLoop.simps [simp del]

function tolAnchorLoop ::
  "Float64 \<Rightarrow> Peak list \<Rightarrow> nat \<Rightarrow> Fingerprint list \<Rightarrow> int \<Rightarrow> Fingerprint list + (Fingerprint list \<times> int)" where
  \<comment> \<open>\<open>for i := 0; i < len(peaks); i += skipFactor\<close>, entered at \<open>i\<close>.\<close>
  "tolAnchorLoop ops peaks i fingerprints processed =
     (if i < length peaks then
        (case tolTargetLoop ops peaks i (peaks ! i) (i + 1) fingerprints processed of
           Inl r \<Rightarrow> Inl r
         | Inr (fingerprints', processed') \<Rightarrow>
             tolAnchorLoop ops peaks (i + skipFactor) fingerprints' processed')
      else Inr (fingerprints, processed))"
  by pat_completeness auto
termination
  by (relation "measure (\<lambda>(ops, peaks, i, fingerprints, processed). length peaks - i)")
     (auto simp: skipFactor_def)

declare tolAnchorLoop.simps [simp del]

definition generateFingerprintsWithMinimalTolerance :: "Float64 \<Rightarrow> Peak list \<Rightarrow> Fingerprint list" where
  "generateFingerprintsWithMinimalTolerance ops peaks =
     (case tolAnchorLoop ops peaks 0 [] 0 of
        Inl r \<Rightarrow> r
      | Inr (fingerprints, processed) \<Rightarrow> fingerprints)"

definition GenerateFingerprintsForMicrophone :: "Float64 \<Rightarrow> Peak list \<Rightarrow> Fingerprint list" where
  "GenerateFingerprintsForMicrophone ops peaks =
     (let baseFingerprints = generateFingerprintsWithTolerance ops peaks False;
          toleranceFingerprints = generateFingerprintsWithMinimalTolerance ops peaks
      in baseFingerprints @ toleranceFingerprints)"

subsection \<open>The pairs of the specification\<close>

definition pairDelta :: "Float64 \<Rightarrow> Peak list \<Rightarrow> nat \<Rightarrow> nat \<Rightarrow> real" where
  \<comment> \<open>\<open>\<Delta>t\<close> of target \<open>peaks[j]\<close> and anchor \<open>peaks[i]\<close>: the float64 difference of their times.\<close>
  "pairDelta ops peaks i j = f64_sub ops (TimeMS (peaks ! j)) (TimeMS (peaks ! i))"

definition spec_pairs :: "Float64 \<Rightarrow> Peak list \<Rightarrow> (nat \<times> nat) list" where
  \<comment> \<open>The specification's index pairs, in its order: every \<open>i\<close>, then
      \<open>j = i+1 \<dots> min(i+FAN, n) - 1\<close>, kept when \<open>0 < \<Delta>t \<le> 2000\<close>.\<close>
  "spec_pairs ops peaks =
     concat (map (\<lambda>i. map (Pair i)
                         (filter (\<lambda>j. 0 < pairDelta ops peaks i j \<and> pairDelta ops peaks i j \<le> 2000)
                            [i + 1 ..< min (i + 15) (length peaks)]))
               [0 ..< length peaks])"

definition pairToken :: "Float64 \<Rightarrow> Peak list \<Rightarrow> nat \<times> nat \<Rightarrow> Fingerprint" where
  \<comment> \<open>What the encoder appends for anchor \<open>peaks[i]\<close> and target \<open>peaks[j]\<close>.\<close>
  "pairToken ops peaks p =
     (case p of (i, j) \<Rightarrow>
        newFingerprint (FreqBin (peaks ! i)) (FreqBin (peaks ! j)) (pairDelta ops peaks i j) (peaks ! i))"

subsection \<open>The tokens of the tolerance encoder, without the cap\<close>

definition inRange :: "Peak \<Rightarrow> Peak \<Rightarrow> int \<times> int \<Rightarrow> bool" where
  \<comment> \<open>Both perturbed bins lie in 0..2048.\<close>
  "inRange anchor target tol =
     (0 \<le> FreqBin anchor + fst tol \<and> 0 \<le> FreqBin target + snd tol
      \<and> FreqBin anchor + fst tol \<le> 2048 \<and> FreqBin target + snd tol \<le> 2048)"

definition tolVariants :: "Peak \<Rightarrow> Peak \<Rightarrow> real \<Rightarrow> (int \<times> int) list \<Rightarrow> Fingerprint list" where
  \<comment> \<open>The tokens of one kept pair: one per perturbation that stays in range, in order.\<close>
  "tolVariants anchor target timeDelta tols =
     map (\<lambda>tol. newFingerprint (FreqBin anchor + fst tol) (FreqBin target + snd tol) timeDelta anchor)
       (filter (inRange anchor target) tols)"

definition tolTargets :: "Float64 \<Rightarrow> Peak list \<Rightarrow> nat \<Rightarrow> nat \<Rightarrow> Fingerprint list" where
  \<comment> \<open>The tokens of anchor \<open>i\<close> for the targets from \<open>j\<close> on.\<close>
  "tolTargets ops peaks i j =
     concat (map (\<lambda>j. tolVariants (peaks ! i) (peaks ! j) (pairDelta ops peaks i j) tolerances)
               (filter (\<lambda>j. 0 < pairDelta ops peaks i j \<and> pairDelta ops peaks i j \<le> 2000)
                  [j ..< min (i + 15) (length peaks)]))"

definition strideFrom :: "nat \<Rightarrow> nat \<Rightarrow> nat list" where
  \<comment> \<open>The indices \<open>i, i + 4, i + 8, \<dots>\<close> below \<open>n\<close>.\<close>
  "strideFrom i n = map (\<lambda>k. i + 4 * k) [0 ..< (n - i + 3) div 4]"

definition tolTokens :: "Float64 \<Rightarrow> Peak list \<Rightarrow> nat \<Rightarrow> Fingerprint list" where
  \<comment> \<open>The tokens of the anchors \<open>i, i + 4, \<dots>\<close>.\<close>
  "tolTokens ops peaks i =
     concat (map (\<lambda>i. tolTargets ops peaks i (i + 1)) (strideFrom i (length peaks)))"

definition capLimit :: nat where
  \<comment> \<open>The constant of the test \<open>processed > 10000\<close>.\<close>
  "capLimit = 10000"

definition capped ::
  "Fingerprint list \<Rightarrow> Fingerprint list \<Rightarrow> Fingerprint list + (Fingerprint list \<times> int)" where
  \<comment> \<open>Appending \<open>ts\<close> one by one to \<open>fps\<close>, returning as soon as more than
      \<open>capLimit\<close> tokens are held.\<close>
  "capped fps ts =
     (if length fps + length ts \<le> capLimit then Inr (fps @ ts, int (length (fps @ ts)))
      else Inl (take (Suc capLimit) (fps @ ts)))"

definition densePeaks :: "nat \<Rightarrow> Peak list" where
  \<comment> \<open>\<open>n\<close> peaks one millisecond apart, all in bin 100.\<close>
  "densePeaks n =
     map (\<lambda>k. \<lparr>Time = real k, TimeMS = real k, Magnitude = 1, FreqBin = 100\<rparr>) [0 ..< n]"

section \<open>The matcher\<close>

text \<open>
  The store is reached through the interface \<open>Database\<close>; the matcher uses two of its
  methods, which are parameters here. The structs \<open>mysql.FingerprintMatch\<close> and
  \<open>mysql.SongInfo\<close> are modelled with the fields the matcher reads.

  A Go map is modelled by an association list with distinct keys. Ranging over a Go map
  visits the keys in an order that the runtime chooses; the association list fixes one such
  order, and a theorem stated for every association list holds for every order.
\<close>

record FingerprintMatch =
  Hash_fm :: string
  SongID_fm :: int
  Offset_fm :: int

record SongInfo =
  Name :: string
  Artist :: string

record Database =
  QueryFingerprints :: "string list \<Rightarrow> error + FingerprintMatch list"
  GetSongByID :: "int \<Rightarrow> error + SongInfo"

record Match =
  SongID_m :: int
  SongName :: string
  Artist_m :: string
  Score :: real
  Offset_m :: int
  Timestamp :: real

record TimeMatch =
  SampleTime :: int
  DbTime :: int
  TimeDiff :: int

definition map_index :: "('k \<times> int) list \<Rightarrow> 'k \<Rightarrow> int" where
  \<comment> \<open>\<open>m[k]\<close> on a map with integer values: the zero value when the key is absent.\<close>
  "map_index m k = (case map_of m k of None \<Rightarrow> 0 | Some v \<Rightarrow> v)"

fun increment :: "(int \<times> int) list \<Rightarrow> int \<Rightarrow> (int \<times> int) list" where
  \<comment> \<open>\<open>m[k]++\<close>.\<close>
  "increment [] k = [(k, 1)]"
| "increment ((k', c) # m) k = (if k' = k then (k', c + 1) # m else (k', c) # increment m k)"

fun append_at :: "(int \<times> 'a list) list \<Rightarrow> int \<Rightarrow> 'a \<Rightarrow> (int \<times> 'a list) list" where
  \<comment> \<open>\<open>m[k] = append(m[k], x)\<close>.\<close>
  "append_at [] k x = [(k, [x])]"
| "append_at ((k', xs) # m) k x =
     (if k' = k then (k', xs @ [x]) # m else (k', xs) # append_at m k x)"

subsection \<open>Scoring\<close>

definition minMatchesOf :: "bool \<Rightarrow> int" where
  "minMatchesOf isFromMicrophone = (if isFromMicrophone then 3 else 5)"

fun countLoop :: "TimeMatch list \<Rightarrow> (int \<times> int) list \<Rightarrow> (int \<times> int) list" where
  \<comment> \<open>\<open>for _, tm := range timeMatches { timeDiffCounts[tm.TimeDiff]++ }\<close>\<close>
  "countLoop [] timeDiffCounts = timeDiffCounts"
| "countLoop (tm # rest) timeDiffCounts = countLoop rest (increment timeDiffCounts (TimeDiff tm))"

fun maxCountLoop :: "(int \<times> int) list \<Rightarrow> int \<Rightarrow> int" where
  \<comment> \<open>\<open>for _, count := range timeDiffCounts { if count > maxCount { maxCount = count } }\<close>\<close>
  "maxCountLoop [] maxCount = maxCount"
| "maxCountLoop ((timeDiff, count) # rest) maxCount =
     maxCountLoop rest (if count > maxCount then count else maxCount)"

definition calculateTemporalScore :: "Float64 \<Rightarrow> TimeMatch list \<Rightarrow> bool \<Rightarrow> real" where
  "calculateTemporalScore ops timeMatches isFromMicrophone =
     (let minMatches = minMatchesOf isFromMicrophone in
      if int (length timeMatches) < minMatches then 0
      else
        (let timeDiffCounts = countLoop timeMatches [];
             maxCount = maxCountLoop timeDiffCounts 0;
             alignedRatio = f64_div ops (real_of_int maxCount) (real (length timeMatches));
             rawScore = f64_mul ops (real_of_int maxCount) alignedRatio;
             normalizationFactor = (if isFromMicrophone then 50 else 100);
             score = f64_div ops rawScore normalizationFactor
         in if score > 1 then 1 else score))"

fun bestLoop :: "(int \<times> int) list \<Rightarrow> int \<Rightarrow> int \<Rightarrow> int" where
  "bestLoop [] maxCount bestTimeDiff = bestTimeDiff"
| "bestLoop ((timeDiff, count) # rest) maxCount bestTimeDiff =
     (if count > maxCount then bestLoop rest count timeDiff
      else bestLoop rest maxCount bestTimeDiff)"

definition findMostCommonTimeDiff :: "TimeMatch list \<Rightarrow> int" where
  "findMostCommonTimeDiff timeMatches = bestLoop (countLoop timeMatches []) 0 0"

subsection \<open>Querying the store in batches\<close>

definition maxBatchSize :: nat where "maxBatchSize = 1000"

function batchLoop ::
  "Database \<Rightarrow> string list \<Rightarrow> nat \<Rightarrow> FingerprintMatch list \<Rightarrow> string list list
     \<Rightarrow> (error + FingerprintMatch list) \<times> string list list" where
  \<comment> \<open>\<open>for i := 0; i < len(hashes); i += maxBatchSize\<close>, entered at \<open>i\<close>. The last
      argument records the argument of every call of \<open>QueryFingerprints\<close>, in order; it is
      returned with the outcome of the loop.\<close>
  "batchLoop db hashes i allDbMatches calls =
     (if i < length hashes then
        (let end' = (if i + maxBatchSize > length hashes then length hashes else i + maxBatchSize);
             batchHashes = take (end' - i) (drop i hashes)
         in case QueryFingerprints db batchHashes of
              Inl err \<Rightarrow> (Inl err, calls @ [batchHashes])
            | Inr dbMatches \<Rightarrow>
                batchLoop db hashes (i + maxBatchSize) (allDbMatches @ dbMatches)
                  (calls @ [batchHashes]))
      else (Inr allDbMatches, calls))"
  by pat_completeness auto
termination
  by (relation "measure (\<lambda>(db, hashes, i, allDbMatches, calls). length hashes - i)")
     (auto simp: maxBatchSize_def)

declare batchLoop.simps [simp del]

subsection \<open>Grouping, scoring and ranking\<close>

fun groupLoop ::
  "(string \<times> int) list \<Rightarrow> FingerprintMatch list \<Rightarrow> (int \<times> TimeMatch list) list
     \<Rightarrow> (int \<times> TimeMatch list) list" where
  "groupLoop sampleFingerprints [] songMatches = songMatches"
| "groupLoop sampleFingerprints (dbMatch # rest) songMatches =
     (let sampleOffset = map_index sampleFingerprints (Hash_fm dbMatch);
          timeDiff = Offset_fm dbMatch - sampleOffset
      in groupLoop sampleFingerprints rest
           (append_at songMatches (SongID_fm dbMatch)
              \<lparr>SampleTime = sampleOffset, DbTime = Offset_fm dbMatch, TimeDiff = timeDiff\<rparr>))"

fun songLoop ::
  "Float64 \<Rightarrow> Database \<Rightarrow> bool \<Rightarrow> int \<Rightarrow> (int \<times> TimeMatch list) list \<Rightarrow> Match list \<Rightarrow> Match list" where
  \<comment> \<open>\<open>for songID, timeMatches := range songMatches\<close>\<close>
  "songLoop ops db isFromMicrophone minMatches [] matches = matches"
| "songLoop ops db isFromMicrophone minMatches ((songID, timeMatches) # rest) matches =
     (if int (length timeMatches) < minMatches
      then songLoop ops db isFromMicrophone minMatches rest matches
      else
        (let score = calculateTemporalScore ops timeMatches isFromMicrophone;
             scoreThreshold = (if isFromMicrophone then float64_0_05 else float64_0_1)
         in if score > scoreThreshold then
              (case GetSongByID db songID of
                 Inl err \<Rightarrow> songLoop ops db isFromMicrophone minMatches rest matches
               | Inr songInfo \<Rightarrow>
                   songLoop ops db isFromMicrophone minMatches rest
                     (matches @
                      [\<lparr>SongID_m = songID, SongName = Name songInfo, Artist_m = Artist songInfo,
                        Score = score, Offset_m = findMostCommonTimeDiff timeMatches,
                        Timestamp = 0\<rparr>]))
            else songLoop ops db isFromMicrophone minMatches rest matches))"

fun insertBy :: "('a \<Rightarrow> 'a \<Rightarrow> bool) \<Rightarrow> 'a \<Rightarrow> 'a list \<Rightarrow> 'a list" where
  "insertBy lt x [] = [x]"
| "insertBy lt x (y # ys) = (if lt x y then x # y # ys else y # insertBy lt x ys)"

definition sort_Slice :: "'a list \<Rightarrow> ('a \<Rightarrow> 'a \<Rightarrow> bool) \<Rightarrow> 'a list" where
  \<comment> \<open>\<open>sort.Slice\<close>: the elements, rearranged so that no element is less than one before
      it. The library does not promise an order among elements that compare equal; the model
      is one sort that meets the contract.\<close>
  "sort_Slice xs lt = foldr (insertBy lt) xs []"

definition findMatches ::
  "Float64 \<Rightarrow> Database \<Rightarrow> (string \<times> int) list \<Rightarrow> bool \<Rightarrow> (error + Match list) \<times> string list list" where
  \<comment> \<open>The result of the method, and the batches it sent to the store.\<close>
  "findMatches ops db sampleFingerprints isFromMicrophone =
     (let hashes = map fst sampleFingerprints in
      if length hashes = 0 then (Inr [], [])
      else
        (case batchLoop db hashes 0 [] [] of
           (Inl err, calls) \<Rightarrow> (Inl err, calls)
         | (Inr allDbMatches, calls) \<Rightarrow>
             if length allDbMatches = 0 then (Inr [], calls)
             else
               (let songMatches = groupLoop sampleFingerprints allDbMatches [];
                    minMatches = minMatchesOf isFromMicrophone;
                    matches = songLoop ops db isFromMicrophone minMatches songMatches [];
                    sorted = sort_Slice matches (\<lambda>a b. Score a > Score b);
                    maxResults = 5
                in (Inr (if length sorted > maxResults then take maxResults sorted else sorted),
                    calls))))"

subsection \<open>The quantities of the specification\<close>

definition modalCount :: "int list \<Rightarrow> nat" where
  \<comment> \<open>How often the most frequent value of the list occurs in it.\<close>
  "modalCount ds = (if ds = [] then 0 else Max (count_list ds ` set ds))"

definition songHits :: "FingerprintMatch list \<Rightarrow> int \<Rightarrow> FingerprintMatch list" where
  \<comment> \<open>The rows of one song among the rows the store returned.\<close>
  "songHits rows songID = filter (\<lambda>r. SongID_fm r = songID) rows"

definition hitDelta :: "(string \<times> int) list \<Rightarrow> FingerprintMatch \<Rightarrow> int" where
  \<comment> \<open>\<open>\<Delta>\<close> = offset in the store minus offset in the query.\<close>
  "hitDelta sampleFingerprints r = Offset_fm r - map_index sampleFingerprints (Hash_fm r)"

definition spec_score :: "Float64 \<Rightarrow> bool \<Rightarrow> nat \<Rightarrow> nat \<Rightarrow> real" where
  \<comment> \<open>The specification's \<open>min(1.0, peak_count \<sqdot> (peak_count / total) / norm)\<close>, with the
      product and the quotients of float64.\<close>
  "spec_score ops isFromMicrophone peak_count n =
     min 1 (f64_div ops (f64_mul ops (real peak_count) (f64_div ops (real peak_count) (real n)))
              (if isFromMicrophone then 50 else 100))"

definition spec_song_score ::
  "Float64 \<Rightarrow> (string \<times> int) list \<Rightarrow> bool \<Rightarrow> FingerprintMatch list \<Rightarrow> int \<Rightarrow> real" where
  \<comment> \<open>The specification's score of a song, from the rows the store returned: \<open>total\<close> is the
      number of rows of the song and \<open>peak_count\<close> the count of the modal \<open>\<Delta>\<close> among them.\<close>
  "spec_song_score ops sampleFingerprints isFromMicrophone rows songID =
     (let hits = songHits rows songID;
          n = length hits;
          peak_count = modalCount (map (hitDelta sampleFingerprints) hits)
      in spec_score ops isFromMicrophone peak_count n)"

definition spec_kept ::
  "Float64 \<Rightarrow> (string \<times> int) list \<Rightarrow> bool \<Rightarrow> FingerprintMatch list \<Rightarrow> int \<Rightarrow> bool" where
  \<comment> \<open>The specification's test on a song: enough rows, and a score above the threshold.
      The thresholds \<open>0.1\<close> and \<open>0.05\<close> are float64 constants.\<close>
  "spec_kept ops sampleFingerprints isFromMicrophone rows songID \<longleftrightarrow>
     (if isFromMicrophone then 3 else 5) \<le> length (songHits rows songID)
     \<and> (if isFromMicrophone then float64_0_05 else float64_0_1)
         < spec_song_score ops sampleFingerprints isFromMicrophone rows songID"

definition rowsOf :: "Database \<Rightarrow> string list \<Rightarrow> FingerprintMatch list" where
  \<comment> \<open>The rows a successful query returns for a batch.\<close>
  "rowsOf db batch = (case QueryFingerprints db batch of Inl err \<Rightarrow> [] | Inr dbMatches \<Rightarrow> dbMatches)"

definition exampleStore :: Database where
  \<comment> \<open>A store with one song, number 7, holding every hash at offset 100.\<close>
  "exampleStore =
     \<lparr>QueryFingerprints =
        (\<lambda>hashes. Inr (map (\<lambda>h. \<lparr>Hash_fm = h, SongID_fm = 7, Offset_fm = 100\<rparr>) hashes)),
      GetSongByID =
        (\<lambda>songID. if songID = 7 then Inr \<lparr>Name = ''song'', Artist = ''artist''\<rparr>
                   else Inl (Failure ''no such song''))\<rparr>"

definition exampleQuery :: "(string \<times> int) list" where
  \<comment> \<open>Five hashes at offset 40.\<close>
  "exampleQuery = [(''a'', 40), (''b'', 40), (''c'', 40), (''d'', 40), (''e'', 40)]"

definition group_at :: "(int \<times> 'a list) list \<Rightarrow> int \<Rightarrow> 'a list" where
  \<comment> \<open>\<open>m[k]\<close> on a map with slice values: the nil slice when the key is absent.\<close>
  "group_at m k = (case map_of m k of None \<Rightarrow> [] | Some xs \<Rightarrow> xs)"

definition timeMatchOf :: "(string \<times> int) list \<Rightarrow> FingerprintMatch \<Rightarrow> TimeMatch" where
  \<comment> \<open>The \<open>TimeMatch\<close> that the grouping loop builds for a row.\<close>
  "timeMatchOf sampleFingerprints r =
     \<lparr>SampleTime = map_index sampleFingerprints (Hash_fm r), DbTime = Offset_fm r,
      TimeDiff = hitDelta sampleFingerprints r\<rparr>"

section \<open>The peak picker\<close>

text \<open>
  An index expression \<open>s[i]\<close> panics when \<open>i\<close> is out of range; \<open>idx\<close> yields \<open>None\<close> then,
  and the functions of the peak picker that read the grid yield \<open>None\<close> when they panic.
  The magnitudes are the results of \<open>cmplx.Abs\<close>, which rounds; once in the grid they are
  compared only.
\<close>

definition idx :: "'a list \<Rightarrow> int \<Rightarrow> 'a option" where
  "idx s i = (if 0 \<le> i \<and> i < int (length s) then Some (s ! nat i) else None)"

definition getMagnitudes :: "Float64 \<Rightarrow> complex list list \<Rightarrow> real list list" where
  "getMagnitudes ops spectrogram = map (map (f64_abs ops)) spectrogram"

definition neighbourOffsets :: "(int \<times> int) list" where
  \<comment> \<open>The pairs \<open>(dt, df)\<close> in the order of the two loops over \<open>deltaT\<close> and \<open>deltaF\<close>.\<close>
  "neighbourOffsets = concat (map (\<lambda>dt. map (\<lambda>df. (dt, df)) [-1, 0, 1]) [-1, 0, 1])"

fun neighbourLoop ::
  "real list list \<Rightarrow> int \<Rightarrow> int \<Rightarrow> real \<Rightarrow> (int \<times> int) list \<Rightarrow> bool option" where
  "neighbourLoop magnitudes t f peakValue [] = Some True"
| "neighbourLoop magnitudes t f peakValue ((dt, df) # rest) =
     (if dt = 0 \<and> df = 0 then neighbourLoop magnitudes t f peakValue rest
      else
        (let tt = t + dt; ff = f + df in
         if tt \<ge> 0 \<and> tt < int (length magnitudes) \<and> ff \<ge> 0 \<and> ff < int (length (magnitudes ! 0))
         then
           (case idx magnitudes tt of
              None \<Rightarrow> None
            | Some row \<Rightarrow>
                (case idx row ff of
                   None \<Rightarrow> None
                 | Some v \<Rightarrow>
                     if peakValue \<le> v then Some False
                     else neighbourLoop magnitudes t f peakValue rest))
         else neighbourLoop magnitudes t f peakValue rest))"

definition isLocalPeak :: "real list list \<Rightarrow> int \<Rightarrow> int \<Rightarrow> bool option" where
  "isLocalPeak magnitudes t f =
     (case idx magnitudes t of
        None \<Rightarrow> None
      | Some row \<Rightarrow>
          (case idx row f of
             None \<Rightarrow> None
           | Some peakValue \<Rightarrow> neighbourLoop magnitudes t f peakValue neighbourOffsets))"

function bandScan ::
  "real list list \<Rightarrow> real list \<Rightarrow> int \<Rightarrow> int \<Rightarrow> int \<Rightarrow> real \<Rightarrow> int \<Rightarrow> (real \<times> int) option" where
  \<comment> \<open>\<open>for f := band.Start; f <= band.End; f++\<close>, entered at \<open>f\<close>; yields \<open>maxMag\<close> and
      \<open>maxBin\<close> after the loop.\<close>
  "bandScan magnitudes frame t f bandEnd maxMag maxBin =
     (if f \<le> bandEnd then
        (case idx frame f of
           None \<Rightarrow> None
         | Some v \<Rightarrow>
             if v > maxMag then
               (case isLocalPeak magnitudes t f of
                  None \<Rightarrow> None
                | Some isPeak \<Rightarrow>
                    if isPeak then bandScan magnitudes frame t (f + 1) bandEnd v f
                    else bandScan magnitudes frame t (f + 1) bandEnd maxMag maxBin)
             else bandScan magnitudes frame t (f + 1) bandEnd maxMag maxBin)
      else Some (maxMag, maxBin))"
  by pat_completeness auto
termination
  by (relation "measure (\<lambda>(magnitudes, frame, t, f, bandEnd, maxMag, maxBin). nat (bandEnd + 1 - f))")
     auto

declare bandScan.simps [simp del]

definition bandStep ::
  "real list list \<Rightarrow> real list \<Rightarrow> int \<Rightarrow> real \<Rightarrow> FrequencyBand \<Rightarrow> Peak list option" where
  \<comment> \<open>The body of the loop over the bands: the peaks it appends, none or one.\<close>
  "bandStep magnitudes frame t timeMS band =
     (if Start band \<ge> int (length frame) \<or> End band \<ge> int (length frame) then Some []
      else
        (case bandScan magnitudes frame t (Start band) (End band) 0 (-1) of
           None \<Rightarrow> None
         | Some (maxMag, maxBin) \<Rightarrow>
             if maxBin \<noteq> -1 \<and> maxMag > PEAK_THRESHOLD
             then Some [\<lparr>Time = real_of_int t, TimeMS = timeMS, Magnitude = maxMag, FreqBin = maxBin\<rparr>]
             else Some []))"

fun bandLoop ::
  "real list list \<Rightarrow> real list \<Rightarrow> int \<Rightarrow> real \<Rightarrow> FrequencyBand list \<Rightarrow> Peak list
     \<Rightarrow> Peak list option" where
  "bandLoop magnitudes frame t timeMS [] peaks = Some peaks"
| "bandLoop magnitudes frame t timeMS (band # rest) peaks =
     (case bandStep magnitudes frame t timeMS band of
        None \<Rightarrow> None
      | Some new \<Rightarrow> bandLoop magnitudes frame t timeMS rest (peaks @ new))"

definition frameTimeMS :: "Float64 \<Rightarrow> nat \<Rightarrow> int \<Rightarrow> int \<Rightarrow> real" where
  \<comment> \<open>\<open>float64(t) * float64(hopSize) / float64(sampleRate) * 1000\<close>\<close>
  "frameTimeMS ops t hopSize sampleRate =
     f64_mul ops
       (f64_div ops (f64_mul ops (real t) (real_of_int hopSize)) (real_of_int sampleRate)) 1000"

function frameLoop ::
  "Float64 \<Rightarrow> real list list \<Rightarrow> int \<Rightarrow> int \<Rightarrow> FrequencyBand list \<Rightarrow> nat \<Rightarrow> Peak list \<Rightarrow> Peak list option" where
  \<comment> \<open>\<open>for t, frame := range magnitudes\<close>, entered at \<open>t\<close>.\<close>
  "frameLoop ops magnitudes hopSize sampleRate bands t peaks =
     (if t < length magnitudes then
        (let frame = magnitudes ! t;
             timeMS = frameTimeMS ops t hopSize sampleRate
         in case bandLoop magnitudes frame (int t) timeMS bands peaks of
              None \<Rightarrow> None
            | Some peaks' \<Rightarrow> frameLoop ops magnitudes hopSize sampleRate bands (t + 1) peaks')
      else Some peaks)"
  by pat_completeness auto
termination
  by (relation "measure (\<lambda>(ops, magnitudes, hopSize, sampleRate, bands, t, peaks). length magnitudes - t)")
     auto

declare frameLoop.simps [simp del]

definition PickPeaks :: "Float64 \<Rightarrow> complex list list \<Rightarrow> int \<Rightarrow> error + Peak list" where
  "PickPeaks ops spectrogram sampleRate =
     (if length spectrogram = 0 \<or> length (spectrogram ! 0) = 0 then Inr []
      else
        (let hopSize = go_quot WINDOW_SIZE 4;
             magnitudes = getMagnitudes ops spectrogram;
             bands = getFrequencyBands sampleRate WINDOW_SIZE
         in case frameLoop ops magnitudes hopSize sampleRate bands 0 [] of
              None \<Rightarrow> Inl Panic
            | Some peaks \<Rightarrow> Inr peaks))"

subsection \<open>The peaks of the specification\<close>

definition cell :: "real list list \<Rightarrow> int \<Rightarrow> int \<Rightarrow> real" where
  "cell magnitudes t f = magnitudes ! nat t ! nat f"

definition inGrid :: "real list list \<Rightarrow> int \<Rightarrow> int \<Rightarrow> bool" where
  "inGrid magnitudes t f \<longleftrightarrow>
     0 \<le> t \<and> t < int (length magnitudes) \<and> 0 \<le> f \<and> f < int (length (magnitudes ! nat t))"

definition strictLocalMax :: "real list list \<Rightarrow> int \<Rightarrow> int \<Rightarrow> bool" where
  \<comment> \<open>Strictly greater than each of the eight neighbours that lie on the grid.\<close>
  "strictLocalMax magnitudes t f \<longleftrightarrow>
     (\<forall>dt \<in> {-1, 0, 1}. \<forall>df \<in> {-1, 0, 1}.
        (dt, df) \<noteq> (0, 0) \<and> inGrid magnitudes (t + dt) (f + df) \<longrightarrow>
          cell magnitudes (t + dt) (f + df) < cell magnitudes t f)"

definition isBandPeak :: "real list list \<Rightarrow> int \<Rightarrow> FrequencyBand \<Rightarrow> int \<Rightarrow> bool" where
  \<comment> \<open>Bin \<open>f\<close> is the bin to emit for the band in frame \<open>t\<close>: a strict local maximum of the
      band above the threshold, of largest magnitude among the strict local maxima of the
      band, and the lowest such bin.\<close>
  "isBandPeak magnitudes t band f \<longleftrightarrow>
     Start band \<le> f \<and> f \<le> End band
     \<and> strictLocalMax magnitudes t f
     \<and> PEAK_THRESHOLD < cell magnitudes t f
     \<and> (\<forall>g. Start band \<le> g \<and> g \<le> End band \<and> strictLocalMax magnitudes t g \<longrightarrow>
            cell magnitudes t g \<le> cell magnitudes t f
            \<and> (cell magnitudes t g = cell magnitudes t f \<longrightarrow> f \<le> g))"

definition rectangular :: "'a list list \<Rightarrow> bool" where
  \<comment> \<open>Every frame has as many bins as the first one.\<close>
  "rectangular grid \<longleftrightarrow> (\<forall>row \<in> set grid. length row = length (grid ! 0))"

definition emitted :: "Float64 \<Rightarrow> real list list \<Rightarrow> int \<Rightarrow> nat \<Rightarrow> FrequencyBand \<Rightarrow> Peak list" where
  \<comment> \<open>What the picker appends for frame \<open>t\<close> and one band.\<close>
  "emitted ops magnitudes sampleRate t band =
     (case bandStep magnitudes (magnitudes ! t) (int t)
             (frameTimeMS ops t (go_quot WINDOW_SIZE 4) sampleRate) band of
        None \<Rightarrow> []
      | Some new \<Rightarrow> new)"

definition exampleGrid :: "complex list list" where
  \<comment> \<open>Three frames of five bins.\<close>
  "exampleGrid =
     map (map complex_of_real)
       [[0.125, 0, 0, 0, 0],
        [0, 0.5, 0.0078125, 0.25, 0],
        [0, 0, 0, 0, 0.25]]"

definition scanInv :: "real list list \<Rightarrow> int \<Rightarrow> int \<Rightarrow> int \<Rightarrow> real \<Rightarrow> int \<Rightarrow> bool" where
  \<comment> \<open>What \<open>maxMag\<close> and \<open>maxBin\<close> hold when the scan of a band that starts at \<open>lo\<close> has
      reached bin \<open>f\<close>.\<close>
  "scanInv magnitudes t lo f maxMag maxBin \<longleftrightarrow>
     (maxBin = -1 \<and> maxMag = 0
      \<and> (\<forall>g. lo \<le> g \<and> g < f \<and> strictLocalMax magnitudes t g \<longrightarrow> cell magnitudes t g \<le> 0))
     \<or> (lo \<le> maxBin \<and> maxBin < f \<and> maxMag = cell magnitudes t maxBin \<and> 0 < maxMag
         \<and> strictLocalMax magnitudes t maxBin
         \<and> (\<forall>g. lo \<le> g \<and> g < f \<and> strictLocalMax magnitudes t g \<longrightarrow>
                cell magnitudes t g \<le> maxMag
                \<and> (cell magnitudes t g = maxMag \<longrightarrow> maxBin \<le> g)))"

section \<open>File recognition\<close>

text \<open>
  \<open>Recognize\<close> calls three functions of package fingerprint whose files are not part of
  the sources at hand: \<open>ConvertToWAV\<close>, \<open>ReadWavInfo\<close> and \<open>SamplesToSpectrogram\<close>. They
  are parameters of the model, and \<open>WavInfo\<close> has the two fields that \<open>Recognize\<close> reads.
\<close>

record WavInfo =
  SampleRate :: int
  Samples :: "real list"

record Pipeline =
  ConvertToWAV :: "string \<Rightarrow> string \<Rightarrow> error + string"
  ReadWavInfo :: "string \<Rightarrow> error + WavInfo"
  SamplesToSpectrogram :: "real list \<Rightarrow> int \<Rightarrow> error + complex list list"

definition Errorf :: "string \<Rightarrow> error \<Rightarrow> error" where
  \<comment> \<open>\<open>fmt.Errorf(prefix + ": %v", err)\<close>\<close>
  "Errorf prefix err =
     Failure (prefix @ '': '' @ (case err of Failure msg \<Rightarrow> msg | Panic \<Rightarrow> ''panic''))"

fun assign :: "(string \<times> int) list \<Rightarrow> string \<Rightarrow> int \<Rightarrow> (string \<times> int) list" where
  \<comment> \<open>\<open>m[k] = v\<close>\<close>
  "assign [] k v = [(k, v)]"
| "assign ((k', v') # m) k v = (if k' = k then (k', v) # m else (k', v') # assign m k v)"

definition fingerprintMapOf :: "Fingerprint list \<Rightarrow> (string \<times> int) list" where
  \<comment> \<open>\<open>for _, fp := range fingerprints { sampleFingerprintMap[fp.Hash] = fp.Offset }\<close>\<close>
  "fingerprintMapOf fingerprints = fold (\<lambda>fp m. assign m (Hash fp) (Offset fp)) fingerprints []"

definition recognizeSamples ::
  "Float64 \<Rightarrow> Pipeline \<Rightarrow> Database \<Rightarrow> real list \<Rightarrow> int \<Rightarrow> error + Match list" where
  \<comment> \<open>\<open>Recognize\<close> from the call of \<open>SamplesToSpectrogram\<close> on, for the samples and the
      sample rate that \<open>wavInfo\<close> holds there.\<close>
  "recognizeSamples ops ext db samples sampleRate =
     (case SamplesToSpectrogram ext samples sampleRate of
        Inl err \<Rightarrow> Inl (Errorf ''error creating spectrogram'' err)
      | Inr spectrogram \<Rightarrow>
          (case PickPeaks ops spectrogram sampleRate of
             Inl err \<Rightarrow> Inl err
           | Inr peaks \<Rightarrow>
               (let fingerprints = GenerateFingerprints ops peaks in
                if length fingerprints = 0 then Inr []
                else
                  (let sampleFingerprintMap = fingerprintMapOf fingerprints in
                   case fst (findMatches ops db sampleFingerprintMap False) of
                     Inl err \<Rightarrow> Inl (Errorf ''error finding matches'' err)
                   | Inr matches \<Rightarrow> Inr matches))))"

definition Recognize :: "Float64 \<Rightarrow> Pipeline \<Rightarrow> Database \<Rightarrow> string \<Rightarrow> error + Match list" where
  "Recognize ops ext db audioPath =
     (case ConvertToWAV ext audioPath ''recognize_output.wav'' of
        Inl err \<Rightarrow> Inl (Errorf ''error converting to WAV'' err)
      | Inr filePath \<Rightarrow>
          (case ReadWavInfo ext filePath of
             Inl err \<Rightarrow> Inl (Errorf ''error reading WAV info'' err)
           | Inr wavInfo \<Rightarrow>
               (let maxSamples = SampleRate wavInfo * 30;
                    originalLength = int (length (Samples wavInfo))
                in if originalLength > maxSamples then
                     (case slice_to (Samples wavInfo) maxSamples of
                        None \<Rightarrow> Inl Panic
                      | Some limited \<Rightarrow> recognizeSamples ops ext db limited (SampleRate wavInfo))
                   else recognizeSamples ops ext db (Samples wavInfo) (SampleRate wavInfo))))"

definition examplePipeline :: "real list \<Rightarrow> Pipeline" where
  \<comment> \<open>A decoder that yields the given samples at 1 Hz, and a transform that fails on more
      than 30 samples and yields an empty grid otherwise.\<close>
  "examplePipeline samples =
     \<lparr>ConvertToWAV = (\<lambda>audioPath outputPath. Inr outputPath),
      ReadWavInfo = (\<lambda>filePath. Inr \<lparr>SampleRate = 1, Samples = samples\<rparr>),
      SamplesToSpectrogram =
        (\<lambda>samples sampleRate. if length samples > 30 then Inl (Failure ''too long'') else Inr [])\<rparr>"

section \<open>Microphone recorder\<close>

definition SAMPLE_RATE :: int where "SAMPLE_RATE = 44100"
definition FRAMES_PER_BUFFER :: int where "FRAMES_PER_BUFFER = 1024"
definition BUFFER_DURATION :: int where "BUFFER_DURATION = 5"

text \<open>
  The recorder's fields that the capture callback reads or writes. The stream handle and
  the two channels are not touched by the callback and are left out. Samples are float32
  values; every float32 is a real number and the conversion to float64 is exact.
\<close>

record MicrophoneRecorder =
  sampleRate :: int
  bufferSize :: int
  audioBuffer :: "real list"
  isRecording :: bool

definition NewMicrophoneRecorder :: MicrophoneRecorder where
  \<comment> \<open>The value built when PortAudio initialises.\<close>
  "NewMicrophoneRecorder =
     \<lparr>sampleRate = SAMPLE_RATE, bufferSize = FRAMES_PER_BUFFER, audioBuffer = [],
      isRecording = False\<rparr>"

definition audioCallback ::
  "MicrophoneRecorder \<Rightarrow> real list \<Rightarrow> error + (MicrophoneRecorder \<times> real list option)" where
  \<comment> \<open>Returns the recorder after the callback, and the segment handed to the
      recognition goroutine when one is started.\<close>
  "audioCallback mr inp =
     (if length inp = 0 then Inr (mr, None)
      else
        let buf = audioBuffer mr @ inp;
            maxSamples = sampleRate mr * 10;
            trimmed =
              (if int (length buf) > maxSamples then
                 (let removeCount = int (length buf) - maxSamples in
                  case slice_from buf removeCount of
                    None \<Rightarrow> Inl Panic
                  | Some src \<Rightarrow>
                      (case slice_to (go_copy buf src) maxSamples of
                         None \<Rightarrow> Inl Panic
                       | Some b \<Rightarrow> Inr b))
               else Inr buf)
        in case trimmed of
             Inl e \<Rightarrow> Inl e
           | Inr buf' \<Rightarrow>
               (let requiredSamples = sampleRate mr * BUFFER_DURATION in
                if int (length buf') \<ge> requiredSamples then
                  (if requiredSamples < 0 then Inl Panic
                   else
                     (case slice_from buf' (int (length buf') - requiredSamples) of
                        None \<Rightarrow> Inl Panic
                      | Some seg \<Rightarrow> Inr (mr\<lparr>audioBuffer := buf'\<rparr>, Some seg)))
                else Inr (mr\<lparr>audioBuffer := buf'\<rparr>, None)))"

fun runCallbacks :: "MicrophoneRecorder \<Rightarrow> real list list \<Rightarrow> error + MicrophoneRecorder" where
  \<comment> \<open>The capture thread: one callback per delivered block, in order.\<close>
  "runCallbacks mr [] = Inr mr"
| "runCallbacks mr (inp # rest) =
     (case audioCallback mr inp of
        Inl e \<Rightarrow> Inl e
      | Inr (mr', _) \<Rightarrow> runCallbacks mr' rest)"

definition lastN :: "nat \<Rightarrow> 'a list \<Rightarrow> 'a list" where
  \<comment> \<open>The most recent \<open>n\<close> samples of a stream (all of it when it is shorter).\<close>
  "lastN n xs = drop (length xs - n) xs"

section \<open>The float64 constants\<close>

text \<open>
  Each constant is \<open>m / 2^e\<close> with \<open>2^52 \<le> m < 2^53\<close>, a float64 value, and lies within
  half a unit of the last place (\<open>1 / 2^(e + 1)\<close>) of the decimal it stands for.
\<close>

lemma float64_0_02_nearest: "\<bar>float64_0_02 - 2 / 100\<bar> < 1 / 2 ^ 59"
  by (simp add: float64_0_02_def abs_less_iff)

lemma float64_0_05_nearest: "\<bar>float64_0_05 - 5 / 100\<bar> < 1 / 2 ^ 57"
  by (simp add: float64_0_05_def abs_less_iff)

lemma float64_0_1_nearest: "\<bar>float64_0_1 - 1 / 10\<bar> < 1 / 2 ^ 56"
  by (simp add: float64_0_1_def abs_less_iff)

section \<open>Frequency bands at 44.1 kHz\<close>

text \<open>
  Claim C4, as stated: with sample rate 44100 and window size 4096 the band 2000--5000 Hz
  becomes the bin range [186, 464]. The code computes \<open>int(2000 / binSize)\<close> with
  \<open>binSize = 22050 / 2048\<close>; the quotient is 185.76 and the conversion truncates, so the
  band does not start at bin 186.
\<close>

theorem band_2000_5000_counterexample:
  "getFrequencyBands 44100 4096 ! 5 \<noteq> \<lparr>Start = 186, End = 464\<rparr>"
  by (simp add: getFrequencyBands_def go_quot_def go_int_def clampBand_def Let_def)

text \<open>
  Claim C4, amended: with sample rate 44100 and window size 4096 the band 2000--5000 Hz
  becomes the bin range [185, 464], and after clamping no band of the list starts or ends
  above bin 2047.
\<close>

theorem band_2000_5000:
  "getFrequencyBands 44100 4096 ! 5 = \<lparr>Start = 185, End = 464\<rparr>
   \<and> (\<forall>b \<in> set (getFrequencyBands 44100 4096). Start b \<le> 2047 \<and> End b \<le> 2047)"
  by (simp add: getFrequencyBands_def go_quot_def go_int_def clampBand_def Let_def)

theorem band_2000_5000_witness:
  "getFrequencyBands 44100 4096 ! 4 \<in> set (getFrequencyBands 44100 4096)
   \<and> Start (getFrequencyBands 44100 4096 ! 4) \<le> 2047
   \<and> End (getFrequencyBands 44100 4096 ! 4) \<le> 2047"
proof -
  have m: "getFrequencyBands 44100 4096 ! 4 \<in> set (getFrequencyBands 44100 4096)"
    by (simp add: getFrequencyBands_def Let_def)
  from band_2000_5000 [THEN conjunct2, rule_format, OF m] m show ?thesis by simp
qed

section \<open>The base encoder\<close>

lemma targetLoop_eq:
  "targetLoop ops peaks i (peaks ! i) j fps =
     fps @ map (\<lambda>j. pairToken ops peaks (i, j))
             (filter (\<lambda>j. 0 < pairDelta ops peaks i j \<and> pairDelta ops peaks i j \<le> 2000)
                [j ..< min (i + 15) (length peaks)])"
proof (induction ops peaks i "peaks ! i" j fps rule: targetLoop.induct)
  case (1 ops peaks i j fps)
  show ?case
  proof (cases "j < i + FAN_VALUE \<and> j < length peaks")
    case True
    then have u: "[j ..< min (i + 15) (length peaks)] = j # [j + 1 ..< min (i + 15) (length peaks)]"
      by (simp add: FAN_VALUE_def upt_conv_Cons)
    show ?thesis
    proof (cases "f64_sub ops (TimeMS (peaks ! j)) (TimeMS (peaks ! i)) \<le> real_of_int MIN_HASH_TIME_DELTA
               \<or> f64_sub ops (TimeMS (peaks ! j)) (TimeMS (peaks ! i)) > real_of_int MAX_HASH_TIME_DELTA")
      case drop: True
      then have "\<not> (0 < pairDelta ops peaks i j \<and> pairDelta ops peaks i j \<le> 2000)"
        by (auto simp: pairDelta_def MIN_HASH_TIME_DELTA_def MAX_HASH_TIME_DELTA_def)
      moreover have "targetLoop ops peaks i (peaks ! i) j fps = targetLoop ops peaks i (peaks ! i) (j + 1) fps"
        using True drop targetLoop.simps [of ops peaks i "peaks ! i" j fps] by (simp add: Let_def)
      ultimately show ?thesis
        using "1.hyps"(1) [OF True refl refl drop] by (simp add: u)
    next
      case keep: False
      then have k: "0 < pairDelta ops peaks i j \<and> pairDelta ops peaks i j \<le> 2000"
        by (auto simp: pairDelta_def MIN_HASH_TIME_DELTA_def MAX_HASH_TIME_DELTA_def)
      have "targetLoop ops peaks i (peaks ! i) j fps =
          targetLoop ops peaks i (peaks ! i) (j + 1) (fps @ [pairToken ops peaks (i, j)])"
        using True keep targetLoop.simps [of ops peaks i "peaks ! i" j fps] by (simp add: Let_def pairToken_def pairDelta_def)
      then show ?thesis
        using "1.hyps"(2) [OF True refl refl keep] k
        by (simp add: u pairToken_def pairDelta_def)
    qed
  next
    case False
    then have "min (i + 15) (length peaks) \<le> j"
      by (auto simp: FAN_VALUE_def)
    then have e: "[j ..< min (i + 15) (length peaks)] = []"
      by (simp only: upt_eq_Nil_conv) simp
    have t: "targetLoop ops peaks i (peaks ! i) j fps = fps"
      using False targetLoop.simps [of ops peaks i "peaks ! i" j fps] by auto
    show ?thesis unfolding e t by simp
  qed
qed

lemma anchorLoop_eq:
  "anchorLoop ops peaks i fps =
     fps @ concat (map (\<lambda>i. map (\<lambda>j. pairToken ops peaks (i, j))
                         (filter (\<lambda>j. 0 < pairDelta ops peaks i j \<and> pairDelta ops peaks i j \<le> 2000)
                            [i + 1 ..< min (i + 15) (length peaks)]))
               [i ..< length peaks])"
proof (induction ops peaks i fps rule: anchorLoop.induct)
  case (1 ops peaks i fps)
  show ?case
  proof (cases "i < length peaks")
    case True
    have "anchorLoop ops peaks i fps = anchorLoop ops peaks (i + 1) (targetLoop ops peaks i (peaks ! i) (i + 1) fps)"
      using True anchorLoop.simps [of ops peaks i fps] by simp
    then show ?thesis
      using "1.IH" [OF True] True by (simp add: targetLoop_eq upt_conv_Cons)
  next
    case False
    then have "anchorLoop ops peaks i fps = fps" using anchorLoop.simps [of ops peaks i fps] by simp
    with False show ?thesis by simp
  qed
qed

lemma generate_eq_spec_pairs:
  "generateFingerprintsWithTolerance ops peaks mt = map (pairToken ops peaks) (spec_pairs ops peaks)"
  by (simp add: generateFingerprintsWithTolerance_def anchorLoop_eq spec_pairs_def map_concat comp_def)

lemma set_spec_pairs:
  "set (spec_pairs ops peaks) =
     {(i, j). i < j \<and> j < i + 15 \<and> j < length peaks
        \<and> 0 < pairDelta ops peaks i j \<and> pairDelta ops peaks i j \<le> 2000}"
  by (fastforce simp: spec_pairs_def)

lemma distinct_concat_Pair:
  "distinct is \<Longrightarrow> (\<And>i. distinct (g i)) \<Longrightarrow>
     distinct (concat (map (\<lambda>i. map (Pair i) (g i)) is))"
  by (induction "is") (auto simp: distinct_map inj_on_def)

lemma distinct_spec_pairs: "distinct (spec_pairs ops peaks)"
  unfolding spec_pairs_def by (rule distinct_concat_Pair) simp_all


lemma length_be_bytes32: "length (be_bytes32 w) = 4"
  by (simp add: be_bytes32_def)

lemma length_sha1_sum: "length (sha1_sum msg) = 20"
  by (simp add: sha1_sum_def Let_def length_be_bytes32 split: prod.splits)

lemma length_hex_EncodeToString: "length (hex_EncodeToString bs) = 2 * length bs"
  by (induction bs) (simp_all add: hex_EncodeToString_def)

lemma nibble_hi: "unat (drop_bit 4 (b :: byte)) < 16"
proof -
  have "unat b < 256" using unsigned_less [of b] by simp
  moreover have "unat (drop_bit 4 b) = drop_bit 4 (unat b)" by (rule unat_drop_bit_eq)
  moreover have "drop_bit 4 (unat b) = unat b div 16" by (simp add: drop_bit_eq_div)
  ultimately show ?thesis by simp
qed

lemma nibble_lo: "unat ((b :: byte) AND 0x0f) < 16"
proof -
  have "b AND 0x0f \<le> 0x0f" by (rule word_and_le1)
  then have "unat (b AND 0x0f) \<le> unat (0x0f :: byte)" by (simp only: word_le_nat_alt)
  then show ?thesis by simp
qed

lemma set_hex_EncodeToString: "set (hex_EncodeToString bs) \<subseteq> set hextable"
proof -
  have "length hextable = 16" by (simp add: hextable_def)
  then have "hextable ! unat (drop_bit 4 b) \<in> set hextable"
       "hextable ! unat (b AND 0x0f) \<in> set hextable" for b :: byte
    using nibble_hi [of b] nibble_lo [of b] by (simp_all only: nth_mem)
  then show ?thesis by (auto simp: hex_EncodeToString_def)
qed

lemma Hash_newFingerprint:
  "Hash (newFingerprint a t d p) = sha1_hex (sprintf_d a @ ''|'' @ sprintf_d t @ ''|'' @ sprintf_d (go_int d))"
  by (simp add: newFingerprint_def sha1_hex_def Let_def)

lemma length_sha1_hex: "length (sha1_hex s) = 40"
  by (simp add: sha1_hex_def length_hex_EncodeToString length_sha1_sum)

lemma set_sha1_hex: "set (sha1_hex s) \<subseteq> set ''0123456789abcdef''"
  using set_hex_EncodeToString [of "sha1_sum (string_bytes s)"]
  by (simp add: sha1_hex_def hextable_def)

lemma sprintf_d_123: "sprintf_d 123 = ''123''"
  by (simp add: sprintf_d_def decimal_nat.simps digit_char_def)

lemma sprintf_d_456: "sprintf_d 456 = ''456''"
  by (simp add: sprintf_d_def decimal_nat.simps digit_char_def)

lemma sprintf_d_789: "sprintf_d 789 = ''789''"
  by (simp add: sprintf_d_def decimal_nat.simps digit_char_def)

lemma spec_pairs_two:
  "0 < f64_sub ops (TimeMS t) (TimeMS a) \<Longrightarrow> f64_sub ops (TimeMS t) (TimeMS a) \<le> 2000 \<Longrightarrow>
     spec_pairs ops [a, t] = [(0, 1)]"
  by (simp add: spec_pairs_def pairDelta_def upt_rec)


text \<open>
  Claim C1: the base encoder emits one fingerprint per pair of \<open>spec_pairs\<close>, in the same
  order. For the pair \<open>(i, j)\<close> the hash is the SHA-1 digest, in 40 lower-case hexadecimal
  digits, of the bytes of \<open>"<bin i>|<bin j>|<int(\<Delta>t)>"\<close>, where \<open>\<Delta>t\<close> is the float64
  difference of the two times and \<open>int\<close> discards its fraction (here the floor, \<open>\<Delta>t\<close> being
  positive), and the offset is \<open>int\<close> of the anchor's time. For two peaks with bins 123 and
  456 whose \<open>\<Delta>t\<close> is 789 the hash is \<open>sha1_hex "123|456|789"\<close>. This holds whatever the
  float64 operations are.
\<close>

theorem fingerprint_hash_format:
  "list_all2
     (\<lambda>(i, j) fp.
        Hash fp = sha1_hex (sprintf_d (FreqBin (peaks ! i)) @ ''|'' @ sprintf_d (FreqBin (peaks ! j))
                    @ ''|'' @ sprintf_d (go_int (f64_sub ops (TimeMS (peaks ! j)) (TimeMS (peaks ! i)))))
        \<and> go_int (f64_sub ops (TimeMS (peaks ! j)) (TimeMS (peaks ! i)))
            = \<lfloor>f64_sub ops (TimeMS (peaks ! j)) (TimeMS (peaks ! i))\<rfloor>
        \<and> length (Hash fp) = 40
        \<and> set (Hash fp) \<subseteq> set ''0123456789abcdef''
        \<and> Offset fp = go_int (TimeMS (peaks ! i)))
     (spec_pairs ops peaks) (generateFingerprintsWithTolerance ops peaks mt)
   \<and> (\<forall>a t. FreqBin a = 123 \<and> FreqBin t = 456 \<and> f64_sub ops (TimeMS t) (TimeMS a) = 789 \<longrightarrow>
          map Hash (generateFingerprintsWithTolerance ops [a, t] mt) = [sha1_hex ''123|456|789''])"
  (is "list_all2 ?P _ _ \<and> ?S6")
proof
  have "\<forall>p \<in> set (spec_pairs ops peaks). ?P p (pairToken ops peaks p)"
  proof
    fix p assume p: "p \<in> set (spec_pairs ops peaks)"
    obtain i j where ij: "p = (i, j)" by (cases p)
    from p ij have "0 < pairDelta ops peaks i j" by (auto simp: spec_pairs_def)
    then have "go_int (f64_sub ops (TimeMS (peaks ! j)) (TimeMS (peaks ! i)))
        = \<lfloor>f64_sub ops (TimeMS (peaks ! j)) (TimeMS (peaks ! i))\<rfloor>"
      by (simp add: go_int_def pairDelta_def)
    moreover have "Offset (pairToken ops peaks (i, j)) = go_int (TimeMS (peaks ! i))"
      by (simp add: pairToken_def newFingerprint_def Let_def)
    ultimately show "?P p (pairToken ops peaks p)"
      unfolding ij using set_sha1_hex
      by (simp add: pairToken_def Hash_newFingerprint length_sha1_hex pairDelta_def)
  qed
  then show "list_all2 ?P (spec_pairs ops peaks) (generateFingerprintsWithTolerance ops peaks mt)"
    unfolding generate_eq_spec_pairs list_all2_map2 list_all2_same .
next
  show ?S6
  proof (intro allI impI)
    fix a t :: Peak
    assume h: "FreqBin a = 123 \<and> FreqBin t = 456 \<and> f64_sub ops (TimeMS t) (TimeMS a) = 789"
    then have "spec_pairs ops [a, t] = [(0, 1)]" by (simp add: spec_pairs_two)
    then show "map Hash (generateFingerprintsWithTolerance ops [a, t] mt) = [sha1_hex ''123|456|789'']"
      using h by (simp add: generate_eq_spec_pairs pairToken_def Hash_newFingerprint pairDelta_def
          sprintf_d_123 sprintf_d_456 sprintf_d_789 go_int_def)
  qed
qed

theorem fingerprint_hash_format_witness:
  "map Hash (generateFingerprintsWithTolerance exactOps
     [\<lparr>Time = 0, TimeMS = 0, Magnitude = 1, FreqBin = 123\<rparr>,
      \<lparr>Time = 34, TimeMS = 789, Magnitude = 1, FreqBin = 456\<rparr>] False)
   = [sha1_hex ''123|456|789'']"
  using fingerprint_hash_format [where ops = exactOps and peaks = "[]" and mt = False, THEN conjunct2, rule_format,
      of "\<lparr>Time = 0, TimeMS = 0, Magnitude = 1, FreqBin = 123\<rparr>"
         "\<lparr>Time = 34, TimeMS = 789, Magnitude = 1, FreqBin = 456\<rparr>"]
  by (simp add: exactOps_def)

text \<open>
  Claim C6: the fingerprints of the base encoder are exactly those of the index pairs
  \<open>(i, j)\<close> with \<open>i < j\<close>, \<open>j < min (i + FAN_VALUE) n\<close>, and \<open>0 < \<Delta>t \<le> 2000\<close>, where \<open>\<Delta>t\<close>
  is the float64 difference of \<open>TimeMS (peaks ! j)\<close> and \<open>TimeMS (peaks ! i)\<close>; each such
  pair is emitted exactly once, in the order of the two loops. This holds whatever the
  float64 subtraction is.
\<close>

theorem base_encoder_pairs:
  "generateFingerprintsWithTolerance ops peaks mt = map (pairToken ops peaks) (spec_pairs ops peaks)
   \<and> distinct (spec_pairs ops peaks)
   \<and> (\<forall>i j. (i, j) \<in> set (spec_pairs ops peaks) \<longleftrightarrow>
          i < j \<and> j < min (i + FAN_VALUE) (length peaks)
          \<and> 0 < f64_sub ops (TimeMS (peaks ! j)) (TimeMS (peaks ! i))
          \<and> f64_sub ops (TimeMS (peaks ! j)) (TimeMS (peaks ! i)) \<le> 2000)"
proof (intro conjI allI)
  show "generateFingerprintsWithTolerance ops peaks mt = map (pairToken ops peaks) (spec_pairs ops peaks)"
    by (rule generate_eq_spec_pairs)
  show "distinct (spec_pairs ops peaks)"
    by (rule distinct_spec_pairs)
  show "(i, j) \<in> set (spec_pairs ops peaks) \<longleftrightarrow>
          i < j \<and> j < min (i + FAN_VALUE) (length peaks)
          \<and> 0 < f64_sub ops (TimeMS (peaks ! j)) (TimeMS (peaks ! i))
          \<and> f64_sub ops (TimeMS (peaks ! j)) (TimeMS (peaks ! i)) \<le> 2000" for i j
    by (auto simp: set_spec_pairs FAN_VALUE_def pairDelta_def)
qed

theorem base_encoder_pairs_witness:
  "map Offset (generateFingerprintsWithTolerance exactOps
     [\<lparr>Time = 0, TimeMS = 0, Magnitude = 1, FreqBin = 10\<rparr>,
      \<lparr>Time = 0, TimeMS = 0, Magnitude = 1, FreqBin = 20\<rparr>,
      \<lparr>Time = 43, TimeMS = 1000, Magnitude = 1, FreqBin = 30\<rparr>,
      \<lparr>Time = 87, TimeMS = 2020.5, Magnitude = 1, FreqBin = 40\<rparr>] False)
   = [0, 0, 1000]
   \<and> spec_pairs exactOps
     [\<lparr>Time = 0, TimeMS = 0, Magnitude = 1, FreqBin = 10\<rparr>,
      \<lparr>Time = 0, TimeMS = 0, Magnitude = 1, FreqBin = 20\<rparr>,
      \<lparr>Time = 43, TimeMS = 1000, Magnitude = 1, FreqBin = 30\<rparr>,
      \<lparr>Time = 87, TimeMS = 2020.5, Magnitude = 1, FreqBin = 40\<rparr>] = [(0, 2), (1, 2), (2, 3)]"
  using base_encoder_pairs [where ops = exactOps and mt = False and peaks =
     "[\<lparr>Time = 0, TimeMS = 0, Magnitude = 1, FreqBin = 10\<rparr>,
      \<lparr>Time = 0, TimeMS = 0, Magnitude = 1, FreqBin = 20\<rparr>,
      \<lparr>Time = 43, TimeMS = 1000, Magnitude = 1, FreqBin = 30\<rparr>,
      \<lparr>Time = 87, TimeMS = 2020.5, Magnitude = 1, FreqBin = 40\<rparr>]", THEN conjunct1]
  by (simp add: exactOps_def spec_pairs_def pairDelta_def upt_rec pairToken_def newFingerprint_def Let_def go_int_def)

section \<open>The tolerance encoder\<close>

lemma capped_append:
  assumes "length fps \<le> capLimit"
  shows "capped fps (xs @ ys) =
     (case capped fps xs of Inl r \<Rightarrow> Inl r | Inr (fps', p') \<Rightarrow> capped fps' ys)"
  using assms by (auto simp: capped_def)

lemma capped_Inr_length:
  "capped fps xs = Inr (fps', p') \<Longrightarrow> p' = int (length fps') \<and> length fps' \<le> capLimit"
  by (auto simp: capped_def split: if_splits)

lemma toleranceLoop_capped:
  "length fps \<le> capLimit \<Longrightarrow>
   toleranceLoop a t d tols fps (int (length fps)) = capped fps (tolVariants a t d tols)"
proof (induction tols arbitrary: fps)
  case Nil
  then show ?case by (simp add: capped_def tolVariants_def)
next
  case (Cons tol tols)
  show ?case
  proof (cases "inRange a t tol")
    case False
    then have "toleranceLoop a t d (tol # tols) fps (int (length fps))
        = toleranceLoop a t d tols fps (int (length fps))"
      by (auto simp: inRange_def Let_def)
    moreover have "tolVariants a t d (tol # tols) = tolVariants a t d tols"
      using False by (simp add: tolVariants_def)
    ultimately show ?thesis using Cons by simp
  next
    case True
    let ?x = "newFingerprint (FreqBin a + fst tol) (FreqBin t + snd tol) d a"
    have v: "tolVariants a t d (tol # tols) = ?x # tolVariants a t d tols"
      using True by (simp add: tolVariants_def)
    have r: "\<not> (FreqBin a + fst tol < 0 \<or> FreqBin t + snd tol < 0
                \<or> FreqBin a + fst tol > 2048 \<or> FreqBin t + snd tol > 2048)"
      using True by (auto simp: inRange_def)
    show ?thesis
    proof (cases "length fps = capLimit")
      case full: True
      have "toleranceLoop a t d (tol # tols) fps (int (length fps)) = Inl (fps @ [?x])"
        using r full by (simp add: Let_def capLimit_def)
      moreover have "capped fps (?x # tolVariants a t d tols) = Inl (fps @ [?x])"
        using full by (simp add: capped_def)
      ultimately show ?thesis by (simp add: v)
    next
      case False
      then have l: "length (fps @ [?x]) \<le> capLimit" using Cons.prems by simp
      have "toleranceLoop a t d (tol # tols) fps (int (length fps))
          = toleranceLoop a t d tols (fps @ [?x]) (int (length (fps @ [?x])))"
        using r False Cons.prems by (simp add: Let_def add.commute capLimit_def)
      also have "\<dots> = capped (fps @ [?x]) (tolVariants a t d tols)"
        by (rule Cons.IH [OF l])
      also have "\<dots> = capped fps (?x # tolVariants a t d tols)"
        by (simp add: capped_def)
      finally show ?thesis by (simp add: v)
    qed
  qed
qed


lemma tolTargets_stop:
  "\<not> (j < i + FAN_VALUE \<and> j < length peaks) \<Longrightarrow> tolTargets ops peaks i j = []"
proof -
  assume "\<not> (j < i + FAN_VALUE \<and> j < length peaks)"
  then have "min (i + 15) (length peaks) \<le> j" by (auto simp: FAN_VALUE_def)
  then have e: "[j ..< min (i + 15) (length peaks)] = []"
    by (simp only: upt_eq_Nil_conv) simp
  show ?thesis unfolding tolTargets_def e by simp
qed

lemma tolTargets_step:
  assumes "j < i + FAN_VALUE \<and> j < length peaks"
  shows "tolTargets ops peaks i j =
     (if 0 < pairDelta ops peaks i j \<and> pairDelta ops peaks i j \<le> 2000
      then tolVariants (peaks ! i) (peaks ! j) (pairDelta ops peaks i j) tolerances else [])
     @ tolTargets ops peaks i (j + 1)"
proof -
  from assms have u: "[j ..< min (i + 15) (length peaks)] = j # [j + 1 ..< min (i + 15) (length peaks)]"
    by (simp add: FAN_VALUE_def upt_conv_Cons)
  show ?thesis unfolding tolTargets_def u by simp
qed

lemma tolTargetLoop_capped:
  "length fps \<le> capLimit \<Longrightarrow>
   tolTargetLoop ops peaks i (peaks ! i) j fps (int (length fps)) = capped fps (tolTargets ops peaks i j)"
proof (induction "length peaks - j" arbitrary: j fps rule: less_induct)
  case less
  show ?case
  proof (cases "j < i + FAN_VALUE \<and> j < length peaks")
    case False
    then have "tolTargetLoop ops peaks i (peaks ! i) j fps (int (length fps)) = Inr (fps, int (length fps))"
      using tolTargetLoop.simps [of ops peaks i "peaks ! i" j fps "int (length fps)"] by auto
    then show ?thesis using less.prems by (simp add: tolTargets_stop [OF False] capped_def)
  next
    case True
    then have m: "length peaks - (j + 1) < length peaks - j" by arith
    let ?d = "pairDelta ops peaks i j"
    show ?thesis
    proof (cases "0 < ?d \<and> ?d \<le> 2000")
      case False
      then have "tolTargetLoop ops peaks i (peaks ! i) j fps (int (length fps))
          = tolTargetLoop ops peaks i (peaks ! i) (j + 1) fps (int (length fps))"
        using True tolTargetLoop.simps [of ops peaks i "peaks ! i" j fps "int (length fps)"]
        by (auto simp: Let_def pairDelta_def MIN_HASH_TIME_DELTA_def MAX_HASH_TIME_DELTA_def)
      also have "\<dots> = capped fps (tolTargets ops peaks i (j + 1))"
        by (rule less.hyps [OF m less.prems])
      finally show ?thesis using False by (auto simp: tolTargets_step [OF True])
    next
      case keep: True
      let ?vs = "tolVariants (peaks ! i) (peaks ! j) ?d tolerances"
      have u: "tolTargetLoop ops peaks i (peaks ! i) j fps (int (length fps))
          = (case toleranceLoop (peaks ! i) (peaks ! j) ?d tolerances fps (int (length fps)) of
               Inl r \<Rightarrow> Inl r
             | Inr (fps', p') \<Rightarrow> tolTargetLoop ops peaks i (peaks ! i) (j + 1) fps' p')"
        using True keep tolTargetLoop.simps [of ops peaks i "peaks ! i" j fps "int (length fps)"]
        by (auto simp: Let_def pairDelta_def MIN_HASH_TIME_DELTA_def MAX_HASH_TIME_DELTA_def)
      have t: "toleranceLoop (peaks ! i) (peaks ! j) ?d tolerances fps (int (length fps)) = capped fps ?vs"
        by (rule toleranceLoop_capped [OF less.prems])
      have "(case capped fps ?vs of
               Inl r \<Rightarrow> Inl r
             | Inr (fps', p') \<Rightarrow> tolTargetLoop ops peaks i (peaks ! i) (j + 1) fps' p')
          = (case capped fps ?vs of
               Inl r \<Rightarrow> Inl r
             | Inr (fps', p') \<Rightarrow> capped fps' (tolTargets ops peaks i (j + 1)))"
      proof (cases "capped fps ?vs")
        case (Inl r)
        then show ?thesis by simp
      next
        case (Inr q)
        obtain fps' p' where q: "q = (fps', p')" by (cases q)
        from capped_Inr_length [of fps ?vs fps' p'] Inr q
        have "p' = int (length fps')" "length fps' \<le> capLimit" by simp_all
        then show ?thesis using Inr q less.hyps [OF m, of fps'] by simp
      qed
      then have "tolTargetLoop ops peaks i (peaks ! i) j fps (int (length fps))
          = (case capped fps ?vs of
               Inl r \<Rightarrow> Inl r
             | Inr (fps', p') \<Rightarrow> capped fps' (tolTargets ops peaks i (j + 1)))"
        by (simp only: u t)
      also have "\<dots> = capped fps (?vs @ tolTargets ops peaks i (j + 1))"
        by (rule capped_append [OF less.prems, symmetric])
      also have "?vs @ tolTargets ops peaks i (j + 1) = tolTargets ops peaks i j"
        using keep tolTargets_step [OF True] by simp
      finally show ?thesis .
    qed
  qed
qed

lemma strideFrom_stop: "\<not> i < n \<Longrightarrow> strideFrom i n = []"
  by (simp add: strideFrom_def)

lemma stride_count:
  fixes i n :: nat
  assumes "i < n"
  shows "(n - i + 3) div 4 = Suc ((n - (i + 4) + 3) div 4)"
proof (cases "i + 4 \<le> n")
  case True
  then have "n - i + 3 = (n - (i + 4) + 3) + 4" by simp
  then show ?thesis by (simp only: div_add_self2)
next
  case False
  with assms have "n - (i + 4) = 0" "n - i + 3 < 8" "4 \<le> n - i + 3" by simp_all
  then show ?thesis by simp
qed

lemma strideFrom_step:
  assumes "i < n" shows "strideFrom i n = i # strideFrom (i + 4) n"
proof -
  have e2: "[0 ..< Suc m] = 0 # map Suc [0 ..< m]" for m
    by (simp add: upt_conv_Cons map_Suc_upt del: upt_Suc)
  show ?thesis unfolding strideFrom_def stride_count [OF assms] e2 by (simp add: comp_def)
qed

lemma tolAnchorLoop_capped:
  "length fps \<le> capLimit \<Longrightarrow>
   tolAnchorLoop ops peaks i fps (int (length fps)) = capped fps (tolTokens ops peaks i)"
proof (induction "length peaks - i" arbitrary: i fps rule: less_induct)
  case less
  show ?case
  proof (cases "i < length peaks")
    case False
    then have "tolAnchorLoop ops peaks i fps (int (length fps)) = Inr (fps, int (length fps))"
      using tolAnchorLoop.simps [of ops peaks i fps "int (length fps)"] by auto
    then show ?thesis
      using less.prems by (simp add: tolTokens_def strideFrom_stop [OF False] capped_def)
  next
    case True
    then have m: "length peaks - (i + 4) < length peaks - i" by arith
    let ?ts = "tolTargets ops peaks i (i + 1)"
    have s: "tolTokens ops peaks i = ?ts @ tolTokens ops peaks (i + 4)"
      by (simp add: tolTokens_def strideFrom_step [OF True])
    have u: "tolAnchorLoop ops peaks i fps (int (length fps))
        = (case tolTargetLoop ops peaks i (peaks ! i) (i + 1) fps (int (length fps)) of
             Inl r \<Rightarrow> Inl r
           | Inr (fps', p') \<Rightarrow> tolAnchorLoop ops peaks (i + 4) fps' p')"
      using True tolAnchorLoop.simps [of ops peaks i fps "int (length fps)"]
      unfolding skipFactor_def by simp
    have "(case capped fps ?ts of
             Inl r \<Rightarrow> Inl r
           | Inr (fps', p') \<Rightarrow> tolAnchorLoop ops peaks (i + 4) fps' p')
        = (case capped fps ?ts of
             Inl r \<Rightarrow> Inl r
           | Inr (fps', p') \<Rightarrow> capped fps' (tolTokens ops peaks (i + 4)))"
    proof (cases "capped fps ?ts")
      case (Inl r)
      then show ?thesis by simp
    next
      case (Inr q)
      obtain fps' p' where q: "q = (fps', p')" by (cases q)
      from capped_Inr_length [of fps ?ts fps' p'] Inr q
      have "p' = int (length fps')" "length fps' \<le> capLimit" by simp_all
      then show ?thesis using Inr q less.hyps [OF m, of fps'] by simp
    qed
    then have "tolAnchorLoop ops peaks i fps (int (length fps))
        = (case capped fps ?ts of
             Inl r \<Rightarrow> Inl r
           | Inr (fps', p') \<Rightarrow> capped fps' (tolTokens ops peaks (i + 4)))"
      by (simp only: u tolTargetLoop_capped [OF less.prems])
    also have "\<dots> = capped fps (?ts @ tolTokens ops peaks (i + 4))"
      by (rule capped_append [OF less.prems, symmetric])
    finally show ?thesis by (simp only: s)
  qed
qed

lemma minimalTolerance_eq:
  "generateFingerprintsWithMinimalTolerance ops peaks = take (Suc capLimit) (tolTokens ops peaks 0)"
proof -
  have "tolAnchorLoop ops peaks 0 [] 0 = capped [] (tolTokens ops peaks 0)"
    using tolAnchorLoop_capped [of "[]" ops peaks 0] by simp
  then show ?thesis
    by (simp add: generateFingerprintsWithMinimalTolerance_def capped_def)
qed

lemma densePeaks_nth: "k < n \<Longrightarrow> densePeaks n ! k = \<lparr>Time = real k, TimeMS = real k, Magnitude = 1, FreqBin = 100\<rparr>"
  by (simp add: densePeaks_def)

lemma length_densePeaks: "length (densePeaks n) = n"
  by (simp add: densePeaks_def)

lemma dense_variants:
  assumes "i < n" "j < n"
  shows "length (tolVariants (densePeaks n ! i) (densePeaks n ! j) d tolerances) = 4"
  using assms by (simp add: tolVariants_def densePeaks_nth tolerances_def inRange_def)

lemma sum_list_const:
  fixes f :: "'a \<Rightarrow> nat"
  shows "(\<And>x. x \<in> set xs \<Longrightarrow> f x = c) \<Longrightarrow> sum_list (map f xs) = length xs * c"
  by (induction xs) simp_all

lemma dense_targets:
  assumes "i + 15 \<le> n"
  shows "length (tolTargets exactOps (densePeaks n) i (i + 1)) = 56"
proof -
  let ?P = "densePeaks n"
  let ?h = "\<lambda>j. length (tolVariants (?P ! i) (?P ! j) (pairDelta exactOps ?P i j) tolerances)"
  have m: "min (i + 15) (length ?P) = i + 15" using assms by (simp add: length_densePeaks)
  have acc: "0 < pairDelta exactOps ?P i j \<and> pairDelta exactOps ?P i j \<le> 2000" if "j \<in> set [i + 1 ..< i + 15]" for j
    using that assms by (simp add: pairDelta_def densePeaks_nth exactOps_def)
  have f: "filter (\<lambda>j. 0 < pairDelta exactOps ?P i j \<and> pairDelta exactOps ?P i j \<le> 2000) [i + 1 ..< i + 15]
      = [i + 1 ..< i + 15]"
    by (intro filter_True ballI) (rule acc)
  have "?h j = 4" if "j \<in> set [i + 1 ..< i + 15]" for j
    using that assms by (intro dense_variants) simp_all
  then have "sum_list (map ?h [i + 1 ..< i + 15]) = length [i + 1 ..< i + 15] * 4"
    by (rule sum_list_const)
  moreover have "length (tolTargets exactOps ?P i (i + 1)) = sum_list (map ?h [i + 1 ..< i + 15])"
    unfolding tolTargets_def m f by (simp add: length_concat comp_def)
  ultimately show ?thesis by simp
qed

lemma dense_tokens: "capLimit < length (tolTokens exactOps (densePeaks 800) 0)"
proof -
  let ?P = "densePeaks 800"
  let ?g = "\<lambda>k. length (tolTargets exactOps ?P (0 + 4 * k) (0 + 4 * k + 1))"
  have s: "[0 ..< (800 - 0 + 3) div 4] = [0 ..< 197] @ [197 ..< 200]"
    by (simp add: upt_add_eq_append [of 0 197 3, simplified])
  have "?g k = 56" if "k \<in> set [0 ..< 197]" for k
    using that by (intro dense_targets) simp
  then have "sum_list (map ?g [0 ..< 197]) = length [0 ..< 197] * 56"
    by (rule sum_list_const)
  moreover have "length (tolTokens exactOps ?P 0) = sum_list (map ?g [0 ..< 197]) + sum_list (map ?g [197 ..< 200])"
    unfolding tolTokens_def strideFrom_def length_densePeaks s
    by (simp add: length_concat comp_def)
  ultimately show ?thesis by (simp add: capLimit_def)
qed

lemma minimalTolerance_length_le:
  "length (generateFingerprintsWithMinimalTolerance ops peaks) \<le> 10001"
  by (simp add: minimalTolerance_eq capLimit_def)


text \<open>
  Claim C3 says that the tolerance encoder never returns more than 10 000 tokens. The test
  \<open>processed > 10000\<close> runs after the token is appended and counted, so the function
  returns with 10 001 tokens: here on 800 peaks one millisecond apart in bin 100, whose
  time differences are whole numbers that float64 subtraction yields exactly.
\<close>

theorem tolerance_cap_exceeded:
  "length (generateFingerprintsWithMinimalTolerance exactOps (densePeaks 800)) = 10001"
  using dense_tokens by (simp add: minimalTolerance_eq capLimit_def)

section \<open>The matcher\<close>


lemma batchLoop_calls:
  "batchLoop db hashes i allDbMatches calls = (res, calls') \<Longrightarrow>
     \<exists>new. calls' = calls @ new
       \<and> (\<forall>b \<in> set new. 0 < length b \<and> length b \<le> maxBatchSize)
       \<and> (\<exists>rest. drop i hashes = concat new @ rest)
       \<and> (\<forall>rows. res = Inr rows \<longrightarrow>
             concat new = drop i hashes \<and> rows = allDbMatches @ concat (map (rowsOf db) new))"
proof (induction "length hashes - i" arbitrary: i allDbMatches calls rule: less_induct)
  case less
  show ?case
  proof (cases "i < length hashes")
    case False
    then have "batchLoop db hashes i allDbMatches calls = (Inr allDbMatches, calls)"
      using batchLoop.simps [of db hashes i allDbMatches calls] by simp
    with less.prems False show ?thesis by auto
  next
    case True
    define batchHashes where "batchHashes = take maxBatchSize (drop i hashes)"
    have b: "take ((if i + maxBatchSize > length hashes then length hashes else i + maxBatchSize) - i)
               (drop i hashes) = batchHashes"
      by (simp add: batchHashes_def)
    have len: "0 < length batchHashes" "length batchHashes \<le> maxBatchSize"
      using True by (simp_all add: batchHashes_def maxBatchSize_def)
    have "drop i hashes = batchHashes @ drop maxBatchSize (drop i hashes)"
      unfolding batchHashes_def by (rule append_take_drop_id [symmetric])
    then have d: "drop i hashes = batchHashes @ drop (i + maxBatchSize) hashes"
      by (simp only: drop_drop add.commute)
    have u: "batchLoop db hashes i allDbMatches calls =
        (case QueryFingerprints db batchHashes of
           Inl err \<Rightarrow> (Inl err, calls @ [batchHashes])
         | Inr dbMatches \<Rightarrow>
             batchLoop db hashes (i + maxBatchSize) (allDbMatches @ dbMatches) (calls @ [batchHashes]))"
      using True batchLoop.simps [of db hashes i allDbMatches calls]
      unfolding Let_def b by simp
    show ?thesis
    proof (cases "QueryFingerprints db batchHashes")
      case (Inl err)
      with u less.prems have "res = Inl err" "calls' = calls @ [batchHashes]" by simp_all
      then show ?thesis using len d by (intro exI [of _ "[batchHashes]"]) auto
    next
      case (Inr dbMatches)
      with u less.prems have r:
        "batchLoop db hashes (i + maxBatchSize) (allDbMatches @ dbMatches) (calls @ [batchHashes]) = (res, calls')"
        by simp
      have m: "length hashes - (i + maxBatchSize) < length hashes - i"
        using True by (simp add: maxBatchSize_def)
      from less.hyps [OF m r] obtain new where n:
        "calls' = (calls @ [batchHashes]) @ new"
        "\<forall>b \<in> set new. 0 < length b \<and> length b \<le> maxBatchSize"
        "\<exists>rest. drop (i + maxBatchSize) hashes = concat new @ rest"
        "\<forall>rows. res = Inr rows \<longrightarrow> concat new = drop (i + maxBatchSize) hashes
            \<and> rows = (allDbMatches @ dbMatches) @ concat (map (rowsOf db) new)"
        by blast
      have ro: "rowsOf db batchHashes = dbMatches" using Inr by (simp add: rowsOf_def)
      show ?thesis
      proof (intro exI [of _ "batchHashes # new"] conjI)
        show "calls' = calls @ batchHashes # new" using n(1) by simp
        show "\<forall>b \<in> set (batchHashes # new). 0 < length b \<and> length b \<le> maxBatchSize"
          using n(2) len by simp
        from n(3) obtain rest where "drop (i + maxBatchSize) hashes = concat new @ rest" by blast
        then have "drop i hashes = concat (batchHashes # new) @ rest" using d by simp
        then show "\<exists>rest. drop i hashes = concat (batchHashes # new) @ rest" by blast
        show "\<forall>rows. res = Inr rows \<longrightarrow> concat (batchHashes # new) = drop i hashes
            \<and> rows = allDbMatches @ concat (map (rowsOf db) (batchHashes # new))"
          using n(4) d ro by simp
      qed
    qed
  qed
qed

lemma snd_findMatches:
  "snd (findMatches ops db q mic) = (if q = [] then [] else snd (batchLoop db (map fst q) 0 [] []))"
  by (simp add: findMatches_def Let_def split: prod.splits sum.splits)

lemma fst_findMatches_Inr:
  assumes "fst (findMatches ops db q mic) = Inr ms" "q \<noteq> []"
  shows "\<exists>rows. fst (batchLoop db (map fst q) 0 [] []) = Inr rows"
  using assms by (auto simp: findMatches_def Let_def split: prod.splits sum.splits)


text \<open>
  Claim C7: the hashes of the query map are sent to the store in consecutive batches, in
  the order of the key list, none empty and none longer than 1000; when the matcher returns
  matches the batches together are all the hashes, and the rows it works on are the rows
  returned for the batches, concatenated in order.
\<close>

theorem matcher_batching:
  "(\<forall>b \<in> set (snd (findMatches ops db q mic)). 0 < length b \<and> length b \<le> 1000)
   \<and> (\<exists>rest. map fst q = concat (snd (findMatches ops db q mic)) @ rest)
   \<and> (\<forall>ms. fst (findMatches ops db q mic) = Inr ms \<longrightarrow> concat (snd (findMatches ops db q mic)) = map fst q)
   \<and> (\<forall>rows calls. batchLoop db (map fst q) 0 [] [] = (Inr rows, calls) \<longrightarrow>
          rows = concat (map (rowsOf db) calls))"
proof (cases "q = []")
  case True
  then have "findMatches ops db q mic = (Inr [], [])" by (simp add: findMatches_def)
  moreover have "batchLoop db (map fst q) 0 [] [] = (Inr [], [])"
    using True batchLoop.simps [of db "[]" 0 "[]" "[]"] by simp
  ultimately show ?thesis using True by simp
next
  case False
  obtain res calls where bl: "batchLoop db (map fst q) 0 [] [] = (res, calls)"
    by (cases "batchLoop db (map fst q) 0 [] []")
  from batchLoop_calls [OF bl] have c:
    "\<forall>b \<in> set calls. 0 < length b \<and> length b \<le> maxBatchSize"
    "\<exists>rest. map fst q = concat calls @ rest"
    "\<forall>rows. res = Inr rows \<longrightarrow> concat calls = map fst q \<and> rows = concat (map (rowsOf db) calls)"
    by auto
  have s: "snd (findMatches ops db q mic) = calls"
    using False bl by (simp add: snd_findMatches)
  have "concat calls = map fst q" if "fst (findMatches ops db q mic) = Inr ms" for ms
    using fst_findMatches_Inr [OF that False] bl c(3) by auto
  then show ?thesis
    using c bl unfolding s by (simp add: maxBatchSize_def)
qed

lemma example_batchLoop:
  "batchLoop exampleStore [''a'', ''b'', ''c'', ''d'', ''e''] 0 [] [] =
     (Inr [\<lparr>Hash_fm = ''a'', SongID_fm = 7, Offset_fm = 100\<rparr>,
           \<lparr>Hash_fm = ''b'', SongID_fm = 7, Offset_fm = 100\<rparr>,
           \<lparr>Hash_fm = ''c'', SongID_fm = 7, Offset_fm = 100\<rparr>,
           \<lparr>Hash_fm = ''d'', SongID_fm = 7, Offset_fm = 100\<rparr>,
           \<lparr>Hash_fm = ''e'', SongID_fm = 7, Offset_fm = 100\<rparr>],
      [[''a'', ''b'', ''c'', ''d'', ''e'']])"
  by (simp add: batchLoop.simps exampleStore_def maxBatchSize_def Let_def)

lemma example_score:
  "calculateTemporalScore exampleOps
     [\<lparr>SampleTime = 40, DbTime = 100, TimeDiff = 60\<rparr>,
      \<lparr>SampleTime = 40, DbTime = 100, TimeDiff = 60\<rparr>,
      \<lparr>SampleTime = 40, DbTime = 100, TimeDiff = 60\<rparr>,
      \<lparr>SampleTime = 40, DbTime = 100, TimeDiff = 60\<rparr>,
      \<lparr>SampleTime = 40, DbTime = 100, TimeDiff = 60\<rparr>] mic
   = (if mic then float64_0_1 else float64_0_05)"
  by (simp add: calculateTemporalScore_def minMatchesOf_def Let_def exampleOps_def exactOps_def
      float64_0_1_def float64_0_05_def)

lemma example_findMatches:
  "findMatches exampleOps exampleStore exampleQuery True =
     (Inr [\<lparr>SongID_m = 7, SongName = ''song'', Artist_m = ''artist'', Score = float64_0_1,
           Offset_m = 60, Timestamp = 0\<rparr>], [[''a'', ''b'', ''c'', ''d'', ''e'']])"
  by (simp add: findMatches_def exampleQuery_def example_batchLoop Let_def map_index_def
      minMatchesOf_def example_score findMostCommonTimeDiff_def sort_Slice_def)
     (simp add: exampleStore_def findMostCommonTimeDiff_def sort_Slice_def
        float64_0_1_def float64_0_05_def)

lemma example_findMatches_file:
  "findMatches exampleOps exampleStore exampleQuery False = (Inr [], [[''a'', ''b'', ''c'', ''d'', ''e'']])"
  by (simp add: findMatches_def exampleQuery_def example_batchLoop Let_def map_index_def
      minMatchesOf_def example_score findMostCommonTimeDiff_def sort_Slice_def)
     (simp add: exampleStore_def findMostCommonTimeDiff_def sort_Slice_def
        float64_0_1_def float64_0_05_def)

theorem matcher_batching_witness:
  "fst (findMatches exampleOps exampleStore exampleQuery True) =
     Inr [\<lparr>SongID_m = 7, SongName = ''song'', Artist_m = ''artist'', Score = float64_0_1,
           Offset_m = 60, Timestamp = 0\<rparr>]
   \<and> concat (snd (findMatches exampleOps exampleStore exampleQuery True)) = map fst exampleQuery
   \<and> length [''a'', ''b'', ''c'', ''d'', ''e''] \<le> 1000"
proof -
  have f: "fst (findMatches exampleOps exampleStore exampleQuery True) =
     Inr [\<lparr>SongID_m = 7, SongName = ''song'', Artist_m = ''artist'', Score = float64_0_1,
           Offset_m = 60, Timestamp = 0\<rparr>]"
    by (simp add: example_findMatches)
  have m: "[''a'', ''b'', ''c'', ''d'', ''e'']
      \<in> set (snd (findMatches exampleOps exampleStore exampleQuery True))"
    by (simp add: example_findMatches)
  note t = matcher_batching [where ops = exampleOps and db = exampleStore and q = exampleQuery
      and mic = True]
  from t [THEN conjunct1, rule_format, OF m]
       t [THEN conjunct2, THEN conjunct2, THEN conjunct1, rule_format, OF f] f
  show ?thesis by simp
qed

lemma set_insertBy: "set (insertBy lt x ys) = insert x (set ys)"
  by (induction ys) auto

lemma sorted_insertBy:
  fixes f :: "'a \<Rightarrow> real"
  assumes "sorted_wrt (\<lambda>a b. f a \<ge> f b) ys"
  shows "sorted_wrt (\<lambda>a b. f a \<ge> f b) (insertBy (\<lambda>a b. f a > f b) x ys)"
  using assms by (induction ys) (auto simp: set_insertBy)

lemma set_sort_Slice: "set (sort_Slice xs lt) = set xs"
  by (induction xs) (simp_all add: sort_Slice_def set_insertBy)

lemma sorted_sort_Slice:
  fixes f :: "'a \<Rightarrow> real"
  shows "sorted_wrt (\<lambda>a b. f a \<ge> f b) (sort_Slice xs (\<lambda>a b. f a > f b))"
  by (induction xs) (simp_all add: sort_Slice_def sorted_insertBy)

lemma sorted_wrt_take: "sorted_wrt R xs \<Longrightarrow> sorted_wrt R (take n xs)"
  by (induction xs arbitrary: n) (auto simp: take_Cons' dest: in_set_takeD)

text \<open>
  Claim C8: whenever the matcher returns matches, the list is in descending order of score
  and has at most 5 entries.
\<close>

theorem matches_sorted_top5:
  assumes "fst (findMatches ops db q mic) = Inr ms"
  shows "sorted_wrt (\<lambda>a b. Score a \<ge> Score b) ms \<and> length ms \<le> 5"
proof -
  have "ms = [] \<or> (\<exists>xs. ms = (let sorted = sort_Slice xs (\<lambda>a b. Score a > Score b)
                                in if length sorted > 5 then take 5 sorted else sorted))"
    using assms by (auto simp: findMatches_def Let_def split: prod.splits sum.splits if_splits)
  then show ?thesis
  proof
    assume "ms = []" then show ?thesis by simp
  next
    assume "\<exists>xs. ms = (let sorted = sort_Slice xs (\<lambda>a b. Score a > Score b)
                                in if length sorted > 5 then take 5 sorted else sorted)"
    then obtain xs where ms: "ms = (let sorted = sort_Slice xs (\<lambda>a b. Score a > Score b)
                                in if length sorted > 5 then take 5 sorted else sorted)" by blast
    have "sorted_wrt (\<lambda>a b. Score a \<ge> Score b) (sort_Slice xs (\<lambda>a b. Score a > Score b))"
      by (rule sorted_sort_Slice)
    then show ?thesis unfolding ms Let_def by (auto intro: sorted_wrt_take)
  qed
qed

theorem matches_sorted_top5_witness:
  "fst (findMatches exampleOps exampleStore exampleQuery True) =
     Inr [\<lparr>SongID_m = 7, SongName = ''song'', Artist_m = ''artist'', Score = float64_0_1,
           Offset_m = 60, Timestamp = 0\<rparr>]
   \<and> sorted_wrt (\<lambda>a b. Score a \<ge> Score b)
        [\<lparr>SongID_m = 7, SongName = ''song'', Artist_m = ''artist'', Score = float64_0_1,
           Offset_m = 60, Timestamp = 0\<rparr>]
   \<and> length [\<lparr>SongID_m = 7, SongName = ''song'', Artist_m = ''artist'', Score = float64_0_1,
           Offset_m = 60, Timestamp = (0::real)\<rparr>] \<le> 5"
proof -
  have f: "fst (findMatches exampleOps exampleStore exampleQuery True) =
     Inr [\<lparr>SongID_m = 7, SongName = ''song'', Artist_m = ''artist'', Score = float64_0_1,
           Offset_m = 60, Timestamp = 0\<rparr>]"
    by (simp add: example_findMatches)
  from matches_sorted_top5 [OF f] f show ?thesis by simp
qed

lemma map_index_increment:
  "map_index (increment m k) d = map_index m d + (if d = k then 1 else 0)"
  by (induction m) (auto simp: map_index_def)

lemma keys_increment: "fst ` set (increment m k) = insert k (fst ` set m)"
proof (induction m)
  case Nil
  then show ?case by simp
next
  case (Cons p m)
  obtain k' c where p: "p = (k', c)" by (cases p)
  show ?case using Cons unfolding p by (cases "k' = k") auto
qed

lemma distinct_increment: "distinct (map fst m) \<Longrightarrow> distinct (map fst (increment m k))"
proof (induction m)
  case Nil
  then show ?case by simp
next
  case (Cons p m)
  obtain k' c where p: "p = (k', c)" by (cases p)
  have "set (map fst (increment m k)) = insert k (fst ` set m)"
    using keys_increment [of m k] by simp
  then show ?case using Cons p by auto
qed

lemma map_index_countLoop:
  "map_index (countLoop tms m) d = map_index m d + int (count_list (map TimeDiff tms) d)"
  by (induction tms arbitrary: m) (auto simp: map_index_increment)

lemma keys_countLoop: "fst ` set (countLoop tms m) = fst ` set m \<union> TimeDiff ` set tms"
  by (induction tms arbitrary: m) (auto simp: keys_increment)

lemma distinct_countLoop: "distinct (map fst m) \<Longrightarrow> distinct (map fst (countLoop tms m))"
  by (induction tms arbitrary: m) (auto simp: distinct_increment)

lemma maxCountLoop_Max: "maxCountLoop cs m = Max (insert m (snd ` set cs))"
proof (induction cs arbitrary: m)
  case Nil
  then show ?case by simp
next
  case (Cons p cs)
  obtain d c where p: "p = (d, c)" by (cases p)
  have "Max (insert (if c > m then c else m) (snd ` set cs)) = Max (insert m (insert c (snd ` set cs)))"
  proof (cases "snd ` set cs = {}")
    case True
    then show ?thesis by (simp add: max_def)
  next
    case False
    then show ?thesis by (simp add: max_def)
  qed
  then show ?case using Cons p by simp
qed

lemma values_distinct:
  assumes "distinct (map fst cs)"
  shows "snd ` set cs = map_index cs ` fst ` set cs"
proof -
  have "map_index cs k = v" if "(k, v) \<in> set cs" for k v
    using that assms by (simp add: map_index_def)
  then show ?thesis by (force simp: image_iff)
qed

lemma int_modalCount:
  "int (modalCount ds) = Max (insert 0 ((\<lambda>d. int (count_list ds d)) ` set ds))"
proof (cases "ds = []")
  case True
  then show ?thesis by (simp add: modalCount_def)
next
  case False
  let ?S = "count_list ds ` set ds"
  have ne: "?S \<noteq> {}" and fin: "finite ?S" using False by simp_all
  have "int (Max ?S) = Max (int ` ?S)"
    by (rule mono_Max_commute [OF _ fin ne]) (simp add: mono_def)
  moreover have "Max (insert 0 (int ` ?S)) = Max (int ` ?S)"
  proof -
    have "0 \<le> Max (int ` ?S)" using ne fin by (simp add: Max_ge_iff)
    then show ?thesis using ne fin by (simp add: max_def)
  qed
  ultimately show ?thesis using False by (simp add: modalCount_def image_image)
qed

lemma maxCount_modal:
  "maxCountLoop (countLoop tms []) 0 = int (modalCount (map TimeDiff tms))"
proof -
  let ?cs = "countLoop tms []"
  let ?ds = "map TimeDiff tms"
  have d: "distinct (map fst ?cs)" by (rule distinct_countLoop) simp
  have k: "fst ` set ?cs = set ?ds" by (simp add: keys_countLoop)
  have "map_index ?cs d = int (count_list ?ds d)" for d
    using map_index_countLoop [of tms "[]" d] by (simp add: map_index_def)
  then have "snd ` set ?cs = (\<lambda>d. int (count_list ?ds d)) ` set ?ds"
    unfolding values_distinct [OF d] k by simp
  then show ?thesis by (simp only: maxCountLoop_Max int_modalCount)
qed

lemma calculateTemporalScore_spec:
  "calculateTemporalScore ops tms mic =
     (if int (length tms) < (if mic then 3 else 5) then 0
      else spec_score ops mic (modalCount (map TimeDiff tms)) (length tms))"
proof -
  have g: "(if x > 1 then 1 else x) = min 1 x" for x :: real by (simp add: min_def)
  show ?thesis
    unfolding calculateTemporalScore_def Let_def minMatchesOf_def maxCount_modal spec_score_def g
    by simp
qed

lemma keys_append_at: "fst ` set (append_at g k x) = insert k (fst ` set g)"
proof (induction g)
  case Nil
  then show ?case by simp
next
  case (Cons p g)
  obtain k' xs where p: "p = (k', xs)" by (cases p)
  show ?case using Cons unfolding p by (cases "k' = k") auto
qed

lemma distinct_append_at: "distinct (map fst g) \<Longrightarrow> distinct (map fst (append_at g k x))"
proof (induction g)
  case Nil
  then show ?case by simp
next
  case (Cons p g)
  obtain k' xs where p: "p = (k', xs)" by (cases p)
  have "set (map fst (append_at g k x)) = insert k (fst ` set g)"
    using keys_append_at [of g k x] by simp
  then show ?case using Cons p by auto
qed

lemma group_at_append_at:
  "group_at (append_at g k x) k' = (if k' = k then group_at g k @ [x] else group_at g k')"
  by (induction g) (auto simp: group_at_def)

lemma group_at_groupLoop:
  "group_at (groupLoop q rows g) sid =
     group_at g sid @ map (timeMatchOf q) (filter (\<lambda>r. SongID_fm r = sid) rows)"
  by (induction rows arbitrary: g)
     (auto simp: Let_def group_at_append_at timeMatchOf_def hitDelta_def)

lemma distinct_groupLoop: "distinct (map fst g) \<Longrightarrow> distinct (map fst (groupLoop q rows g))"
  by (induction rows arbitrary: g) (auto simp: Let_def distinct_append_at)

lemma groupLoop_member:
  assumes "(sid, tms) \<in> set (groupLoop q rows [])"
  shows "tms = map (timeMatchOf q) (songHits rows sid)"
proof -
  have "distinct (map fst (groupLoop q rows []))" by (rule distinct_groupLoop) simp
  with assms have "group_at (groupLoop q rows []) sid = tms" by (simp add: group_at_def)
  moreover have "group_at ([] :: (int \<times> TimeMatch list) list) sid = []" by (simp add: group_at_def)
  ultimately show ?thesis by (simp only: group_at_groupLoop songHits_def append_Nil)
qed


lemma keys_groupLoop: "fst ` set (groupLoop q rows g) = fst ` set g \<union> SongID_fm ` set rows"
  by (induction rows arbitrary: g) (auto simp: Let_def keys_append_at)

lemma songLoop_acc:
  "songLoop ops db mic minM g ms0 = ms0 @ songLoop ops db mic minM g []"
proof (induction g arbitrary: ms0)
  case Nil
  then show ?case by simp
next
  case (Cons p g)
  obtain sid tms where p: "p = (sid, tms)" by (cases p)
  show ?case unfolding p
    using Cons.IH [of ms0] Cons.IH [of "ms0 @ [x]" for x] Cons.IH [of "[x]" for x]
    by (cases mic; simp add: Let_def split: sum.splits)
qed

lemma songLoop_single:
  "songLoop ops db mic minM [(sid, tms)] [] =
     (if \<not> int (length tms) < minM
         \<and> (if mic then float64_0_05 else float64_0_1) < calculateTemporalScore ops tms mic
      then (case GetSongByID db sid of
              Inl err \<Rightarrow> []
            | Inr songInfo \<Rightarrow>
                [\<lparr>SongID_m = sid, SongName = Name songInfo, Artist_m = Artist songInfo,
                  Score = calculateTemporalScore ops tms mic,
                  Offset_m = findMostCommonTimeDiff tms, Timestamp = 0\<rparr>])
      else [])"
  by (simp add: Let_def split: sum.splits)

lemma songLoop_Cons:
  "songLoop ops db mic minM (p # g) [] =
     songLoop ops db mic minM [p] [] @ songLoop ops db mic minM g []"
proof -
  obtain sid tms where p: "p = (sid, tms)" by (cases p)
  show ?thesis unfolding p
    using songLoop_acc [of ops db mic minM g "[x]" for x]
    by (cases mic; simp add: Let_def split: sum.splits)
qed

lemma songLoop_ids:
  "map SongID_m (songLoop ops db mic minM g []) =
     map fst (filter (\<lambda>(sid, tms). \<not> int (length tms) < minM
         \<and> (if mic then float64_0_05 else float64_0_1) < calculateTemporalScore ops tms mic
         \<and> (\<exists>songInfo. GetSongByID db sid = Inr songInfo)) g)"
proof (induction g)
  case Nil
  then show ?case by simp
next
  case (Cons p g)
  obtain sid tms where p: "p = (sid, tms)" by (cases p)
  have "map SongID_m (songLoop ops db mic minM [(sid, tms)] []) =
      (if \<not> int (length tms) < minM
         \<and> (if mic then float64_0_05 else float64_0_1) < calculateTemporalScore ops tms mic
         \<and> (\<exists>songInfo. GetSongByID db sid = Inr songInfo) then [sid] else [])"
    unfolding songLoop_single by (cases "GetSongByID db sid") simp_all
  then show ?case
    unfolding p songLoop_Cons [of ops db mic minM "(sid, tms)" g] map_append Cons.IH
    by simp
qed

lemma songLoop_single_member:
  assumes "m \<in> set (songLoop ops db mic minM [(sid, tms)] [])"
  shows "SongID_m m = sid \<and> \<not> int (length tms) < minM
        \<and> Score m = calculateTemporalScore ops tms mic"
proof (cases "GetSongByID db sid")
  case (Inl err)
  with assms show ?thesis by (simp add: Let_def split: if_splits)
next
  case (Inr songInfo)
  with assms show ?thesis by (auto simp: Let_def split: if_splits)
qed

lemma songLoop_member:
  "m \<in> set (songLoop ops db mic minM g []) \<Longrightarrow>
     \<exists>tms. (SongID_m m, tms) \<in> set g \<and> \<not> int (length tms) < minM
        \<and> Score m = calculateTemporalScore ops tms mic"
proof (induction g)
  case Nil
  then show ?case by simp
next
  case (Cons p g)
  obtain sid tms where p: "p = (sid, tms)" by (cases p)
  from Cons.prems have "m \<in> set (songLoop ops db mic minM [(sid, tms)] [])
      \<or> m \<in> set (songLoop ops db mic minM g [])"
    unfolding p songLoop_Cons [of ops db mic minM "(sid, tms)" g] by simp
  then show ?case
  proof
    assume "m \<in> set (songLoop ops db mic minM [(sid, tms)] [])"
    then have "SongID_m m = sid \<and> \<not> int (length tms) < minM
        \<and> Score m = calculateTemporalScore ops tms mic"
      by (rule songLoop_single_member)
    then show ?thesis unfolding p by auto
  next
    assume "m \<in> set (songLoop ops db mic minM g [])"
    from Cons.IH [OF this] show ?thesis by auto
  qed
qed

lemma group_score:
  assumes "(sid, tms) \<in> set (groupLoop q rows [])"
  shows "length tms = length (songHits rows sid)"
    and "\<not> int (length tms) < minMatchesOf mic \<Longrightarrow>
           calculateTemporalScore ops tms mic = spec_song_score ops q mic rows sid"
proof -
  have tms: "tms = map (timeMatchOf q) (songHits rows sid)"
    by (rule groupLoop_member [OF assms])
  have d: "map TimeDiff tms = map (hitDelta q) (songHits rows sid)"
    unfolding tms by (simp add: timeMatchOf_def comp_def)
  show l: "length tms = length (songHits rows sid)" unfolding tms by simp
  show "calculateTemporalScore ops tms mic = spec_song_score ops q mic rows sid"
    if "\<not> int (length tms) < minMatchesOf mic"
    using that unfolding spec_song_score_def Let_def d [symmetric] l [symmetric]
    by (simp add: calculateTemporalScore_spec minMatchesOf_def)
qed

lemma candidates_ids:
  "sid \<in> SongID_m ` set (songLoop ops db mic (minMatchesOf mic) (groupLoop q rows []) []) \<longleftrightarrow>
     spec_kept ops q mic rows sid \<and> (\<exists>songInfo. GetSongByID db sid = Inr songInfo)"
  (is "?L \<longleftrightarrow> ?R")
proof
  let ?g = "groupLoop q rows []"
  have ids: "SongID_m ` set (songLoop ops db mic (minMatchesOf mic) ?g []) =
      fst ` set (filter (\<lambda>(sid, tms). \<not> int (length tms) < minMatchesOf mic
         \<and> (if mic then float64_0_05 else float64_0_1) < calculateTemporalScore ops tms mic
         \<and> (\<exists>songInfo. GetSongByID db sid = Inr songInfo)) ?g)"
    using songLoop_ids [of ops db mic "minMatchesOf mic" ?g, THEN arg_cong, of set]
    by (simp only: set_map)
  {
    assume ?L
    then obtain tms where t: "(sid, tms) \<in> set ?g" "\<not> int (length tms) < minMatchesOf mic"
        "(if mic then float64_0_05 else float64_0_1) < calculateTemporalScore ops tms mic"
        "\<exists>songInfo. GetSongByID db sid = Inr songInfo"
      unfolding ids by auto
    show ?R
      using t(2,3,4) group_score(1) [OF t(1)] group_score(2) [OF t(1,2), of ops]
      by (auto simp: spec_kept_def minMatchesOf_def split: if_splits)
  next
    assume r: ?R
    then have "songHits rows sid \<noteq> []" by (auto simp: spec_kept_def split: if_splits)
    then have "sid \<in> SongID_fm ` set rows"
      by (auto simp: songHits_def filter_empty_conv)
    then have "sid \<in> fst ` set ?g" by (simp add: keys_groupLoop)
    then obtain tms where t: "(sid, tms) \<in> set ?g" by auto
    have n: "\<not> int (length tms) < minMatchesOf mic"
      using r group_score(1) [OF t] by (auto simp: spec_kept_def minMatchesOf_def split: if_splits)
    have "(if mic then float64_0_05 else float64_0_1) < calculateTemporalScore ops tms mic"
      using r group_score(2) [OF t n, of ops] by (simp add: spec_kept_def)
    with t n r show ?L unfolding ids by force
  }
qed

lemma candidates_distinct:
  "distinct (map SongID_m (songLoop ops db mic minM (groupLoop q rows []) []))"
proof -
  have "distinct (map fst (groupLoop q rows []))" by (rule distinct_groupLoop) simp
  then show ?thesis unfolding songLoop_ids by (rule distinct_map_filter)
qed

lemma candidates_score:
  assumes "m \<in> set (songLoop ops db mic (minMatchesOf mic) (groupLoop q rows []) [])"
  shows "Score m = spec_song_score ops q mic rows (SongID_m m)"
proof -
  from songLoop_member [OF assms] obtain tms where t:
    "(SongID_m m, tms) \<in> set (groupLoop q rows [])" "\<not> int (length tms) < minMatchesOf mic"
    "Score m = calculateTemporalScore ops tms mic" by auto
  show ?thesis using group_score(2) [OF t(1,2), of ops] t(3) by simp
qed

lemma length_insertBy: "length (insertBy lt x ys) = Suc (length ys)"
  by (induction ys) simp_all

lemma length_sort_Slice: "length (sort_Slice xs lt) = length xs"
  by (induction xs) (simp_all add: sort_Slice_def length_insertBy)

lemma findMatches_result:
  assumes "batchLoop db (map fst q) 0 [] [] = (Inr rows, calls)"
  shows "fst (findMatches ops db q mic) =
     Inr (take 5 (sort_Slice (songLoop ops db mic (minMatchesOf mic) (groupLoop q rows []) [])
                    (\<lambda>a b. Score a > Score b)))"
proof (cases "q = []")
  case True
  then have "batchLoop db (map fst q) 0 [] [] = (Inr [], [])"
    using batchLoop.simps [of db "[]" 0 "[]" "[]"] by simp
  with assms have "rows = []" by simp
  then show ?thesis using True by (simp add: findMatches_def sort_Slice_def)
next
  case False
  show ?thesis
  proof (cases "rows = []")
    case True
    then show ?thesis using False assms by (simp add: findMatches_def sort_Slice_def)
  next
    case r: False
    have t: "(if 5 < length xs then take 5 xs else xs) = take 5 xs" for xs :: "Match list"
      by simp
    show ?thesis using False r assms by (simp add: findMatches_def Let_def t)
  qed
qed

lemma top_of_sorted:
  assumes "sorted_wrt R xs" "c \<in> set xs" "c \<notin> set (take n xs)" "m \<in> set (take n xs)"
  shows "R m c"
proof -
  have "set xs = set (take n xs) \<union> set (drop n xs)"
    using set_append [of "take n xs" "drop n xs"] by simp
  with assms(2,3) have "c \<in> set (drop n xs)" by simp
  moreover have "sorted_wrt R (take n xs @ drop n xs)" using assms(1) by simp
  ultimately show ?thesis using assms(4) unfolding sorted_wrt_append by blast
qed

lemma findMatches_candidates:
  assumes "batchLoop db (map fst q) 0 [] [] = (Inr rows, calls)"
  shows "\<exists>cands ms.
       fst (findMatches ops db q mic) = Inr ms
       \<and> distinct (map SongID_m cands)
       \<and> (\<forall>sid. sid \<in> SongID_m ` set cands \<longleftrightarrow>
             spec_kept ops q mic rows sid \<and> (\<exists>songInfo. GetSongByID db sid = Inr songInfo))
       \<and> (\<forall>m \<in> set cands. Score m = spec_song_score ops q mic rows (SongID_m m))
       \<and> set ms \<subseteq> set cands
       \<and> length ms = min 5 (length cands)
       \<and> (length cands \<le> 5 \<longrightarrow> set ms = set cands)
       \<and> (\<forall>c \<in> set cands. c \<notin> set ms \<longrightarrow> (\<forall>m \<in> set ms. Score c \<le> Score m))"
proof -
  define cands where "cands = songLoop ops db mic (minMatchesOf mic) (groupLoop q rows []) []"
  define sorted where "sorted = sort_Slice cands (\<lambda>a b. Score a > Score b)"
  define ms where "ms = take 5 sorted"
  have s: "sorted_wrt (\<lambda>a b. Score a \<ge> Score b) sorted"
    unfolding sorted_def by (rule sorted_sort_Slice)
  have st: "set sorted = set cands" unfolding sorted_def by (rule set_sort_Slice)
  have ln: "length sorted = length cands" unfolding sorted_def by (rule length_sort_Slice)
  have "fst (findMatches ops db q mic) = Inr ms"
    unfolding ms_def sorted_def cands_def by (rule findMatches_result [OF assms])
  moreover have "distinct (map SongID_m cands)"
    unfolding cands_def by (rule candidates_distinct)
  moreover have "sid \<in> SongID_m ` set cands \<longleftrightarrow>
      spec_kept ops q mic rows sid \<and> (\<exists>songInfo. GetSongByID db sid = Inr songInfo)" for sid
    unfolding cands_def by (rule candidates_ids)
  moreover have "Score m = spec_song_score ops q mic rows (SongID_m m)" if "m \<in> set cands" for m
    using that unfolding cands_def by (rule candidates_score)
  moreover have "set ms \<subseteq> set cands"
    unfolding ms_def st [symmetric] by (rule set_take_subset)
  moreover have "length ms = min 5 (length cands)"
    unfolding ms_def by (simp add: ln min.commute)
  moreover have "set ms = set cands" if "length cands \<le> 5"
    using that unfolding ms_def by (simp add: ln st)
  moreover have "Score c \<le> Score m" if "c \<in> set cands" "c \<notin> set ms" "m \<in> set ms" for c m
    using top_of_sorted [OF s, of c 5 m] that unfolding ms_def st by simp
  ultimately show ?thesis by blast
qed

lemma modalCount_const:
  assumes "length ds = 5" "\<forall>x \<in> set ds. x = d"
  shows "modalCount ds = 5"
proof -
  have "ds = replicate (length ds) d"
    using assms(2) by (induction ds) simp_all
  then have r: "ds = replicate 5 d" using assms(1) by simp
  have "count_list (replicate n d) d = n" for n by (induction n) simp_all
  then show ?thesis unfolding modalCount_def by (subst (1 2 3) r) simp
qed

lemma five_hits_score:
  assumes "length (songHits rows sid) = 5" "\<forall>r \<in> set (songHits rows sid). hitDelta q r = d"
      and "f64_div ops 5 5 = 1" "f64_mul ops 5 1 = 5"
      and "f64_div ops 5 100 = float64_0_05" "f64_div ops 5 50 = float64_0_1"
  shows "spec_song_score ops q mic rows sid = (if mic then float64_0_1 else float64_0_05)"
proof -
  have "modalCount (map (hitDelta q) (songHits rows sid)) = 5"
    using assms(1,2) by (intro modalCount_const [of _ d]) simp_all
  then show ?thesis
    using assms(1,3-)
    by (simp add: spec_song_score_def spec_score_def Let_def float64_0_1_def float64_0_05_def)
qed

text \<open>
  Claim C2: when the store answers every batch, the matcher returns the best five of the
  candidate matches. There is one candidate for each song that has at least 5 rows (3 in
  microphone mode) among the rows the store returned and a score above the threshold, and
  whose metadata the store yields; no other song has one. The score of a candidate is
  \<open>min 1 (peak_count \<sqdot> (peak_count / total) / norm)\<close> with \<open>total\<close> the number of rows of the
  song, \<open>peak_count\<close> the count of the most frequent \<open>\<Delta>\<close> among them and \<open>norm\<close> 100 (50 in
  microphone mode). The product and the quotients are those of float64, and the thresholds
  are the float64 constants \<open>0.1\<close> and \<open>0.05\<close>. A candidate is missing from the result only
  when five others with scores at least as high fill it. Every score the matcher computes
  has the value above. For five rows of one song in one \<open>\<Delta>\<close> bucket, float64 arithmetic
  yielding \<open>5 / 5 = 1\<close>, \<open>5 \<sqdot> 1 = 5\<close> and the constants \<open>0.05\<close> and \<open>0.1\<close> for \<open>5 / 100\<close> and
  \<open>5 / 50\<close>: the score is 0.05 in file mode and the song is not in the result; the score is
  0.10 in microphone mode and the song is in the result when its metadata can be read,
  unless five matches that score 0.10 or more fill the result.
\<close>

theorem matcher_scoring:
  assumes "batchLoop db (map fst q) 0 [] [] = (Inr rows, calls)"
  shows
   "(\<exists>cands ms.
       fst (findMatches ops db q mic) = Inr ms
       \<and> distinct (map SongID_m cands)
       \<and> (\<forall>sid. sid \<in> SongID_m ` set cands \<longleftrightarrow>
             spec_kept ops q mic rows sid \<and> (\<exists>songInfo. GetSongByID db sid = Inr songInfo))
       \<and> (\<forall>m \<in> set cands. Score m = spec_song_score ops q mic rows (SongID_m m))
       \<and> set ms \<subseteq> set cands
       \<and> length ms = min 5 (length cands)
       \<and> (length cands \<le> 5 \<longrightarrow> set ms = set cands)
       \<and> (\<forall>c \<in> set cands. c \<notin> set ms \<longrightarrow> (\<forall>m \<in> set ms. Score c \<le> Score m)))
    \<and> (\<forall>tms. calculateTemporalScore ops tms mic =
          (if int (length tms) < (if mic then 3 else 5) then 0
           else spec_score ops mic (modalCount (map TimeDiff tms)) (length tms)))
    \<and> (\<forall>sid d.
         length (songHits rows sid) = 5 \<and> (\<forall>r \<in> set (songHits rows sid). hitDelta q r = d)
         \<and> f64_div ops 5 5 = 1 \<and> f64_mul ops 5 1 = 5
         \<and> f64_div ops 5 100 = float64_0_05 \<and> f64_div ops 5 50 = float64_0_1 \<longrightarrow>
           spec_song_score ops q False rows sid = float64_0_05
           \<and> (\<exists>ms. fst (findMatches ops db q False) = Inr ms \<and> sid \<notin> SongID_m ` set ms)
           \<and> spec_song_score ops q True rows sid = float64_0_1
           \<and> (\<forall>songInfo. GetSongByID db sid = Inr songInfo \<longrightarrow>
                (\<exists>ms. fst (findMatches ops db q True) = Inr ms
                   \<and> ((\<exists>m \<in> set ms. SongID_m m = sid \<and> Score m = float64_0_1)
                      \<or> (length ms = 5 \<and> (\<forall>m \<in> set ms. float64_0_1 \<le> Score m))))))"
  (is "?A \<and> ?B \<and> ?C")
proof (intro conjI)
  show ?A by (rule findMatches_candidates [OF assms])
  show ?B by (intro allI) (rule calculateTemporalScore_spec)
  show ?C
  proof (intro allI impI)
    fix sid d
    assume h: "length (songHits rows sid) = 5 \<and> (\<forall>r \<in> set (songHits rows sid). hitDelta q r = d)
         \<and> f64_div ops 5 5 = 1 \<and> f64_mul ops 5 1 = 5
         \<and> f64_div ops 5 100 = float64_0_05 \<and> f64_div ops 5 50 = float64_0_1"
    then have sc: "spec_song_score ops q mic' rows sid = (if mic' then float64_0_1 else float64_0_05)"
      for mic'
      by (intro five_hits_score [of rows sid q d]) simp_all
    have nk: "\<not> spec_kept ops q False rows sid"
      by (simp add: spec_kept_def sc float64_0_1_def float64_0_05_def)
    have k: "spec_kept ops q True rows sid"
      using h by (simp add: spec_kept_def sc float64_0_1_def float64_0_05_def)
    from findMatches_candidates [OF assms, of ops False] obtain candsF msF where f:
      "fst (findMatches ops db q False) = Inr msF"
      "\<forall>sid. sid \<in> SongID_m ` set candsF \<longleftrightarrow>
             spec_kept ops q False rows sid \<and> (\<exists>songInfo. GetSongByID db sid = Inr songInfo)"
      "set msF \<subseteq> set candsF"
      by blast
    from f(2) nk have "sid \<notin> SongID_m ` set candsF" by simp
    with f(3) have "sid \<notin> SongID_m ` set msF" by blast
    with f(1) have ex: "\<exists>ms. fst (findMatches ops db q False) = Inr ms \<and> sid \<notin> SongID_m ` set ms"
      by blast
    have inc: "\<exists>ms. fst (findMatches ops db q True) = Inr ms
                   \<and> ((\<exists>m \<in> set ms. SongID_m m = sid \<and> Score m = float64_0_1)
                      \<or> (length ms = 5 \<and> (\<forall>m \<in> set ms. float64_0_1 \<le> Score m)))"
      if g: "GetSongByID db sid = Inr songInfo" for songInfo
    proof -
      from findMatches_candidates [OF assms, of ops True] obtain cands ms where t:
        "fst (findMatches ops db q True) = Inr ms"
        "\<forall>sid. sid \<in> SongID_m ` set cands \<longleftrightarrow>
               spec_kept ops q True rows sid \<and> (\<exists>songInfo. GetSongByID db sid = Inr songInfo)"
        "\<forall>m \<in> set cands. Score m = spec_song_score ops q True rows (SongID_m m)"
        "length ms = min 5 (length cands)"
        "length cands \<le> 5 \<longrightarrow> set ms = set cands"
        "\<forall>c \<in> set cands. c \<notin> set ms \<longrightarrow> (\<forall>m \<in> set ms. Score c \<le> Score m)"
        by blast
      from t(2) k g have "sid \<in> SongID_m ` set cands" by blast
      then obtain c where c: "c \<in> set cands" "SongID_m c = sid" by auto
      with t(3) have s: "Score c = float64_0_1" by (simp add: sc)
      show ?thesis
      proof (cases "c \<in> set ms")
        case True
        with c s t(1) show ?thesis by blast
      next
        case False
        with t(5) c(1) have "\<not> length cands \<le> 5" by blast
        with t(4) have "length ms = 5" by simp
        moreover have "\<forall>m \<in> set ms. float64_0_1 \<le> Score m"
          using t(6) c(1) False s by auto
        ultimately show ?thesis using t(1) by blast
      qed
    qed
    show "spec_song_score ops q False rows sid = float64_0_05
           \<and> (\<exists>ms. fst (findMatches ops db q False) = Inr ms \<and> sid \<notin> SongID_m ` set ms)
           \<and> spec_song_score ops q True rows sid = float64_0_1
           \<and> (\<forall>songInfo. GetSongByID db sid = Inr songInfo \<longrightarrow>
                (\<exists>ms. fst (findMatches ops db q True) = Inr ms
                   \<and> ((\<exists>m \<in> set ms. SongID_m m = sid \<and> Score m = float64_0_1)
                      \<or> (length ms = 5 \<and> (\<forall>m \<in> set ms. float64_0_1 \<le> Score m)))))"
      using sc [of False] sc [of True] ex inc by simp
  qed
qed

lemma example_hits:
  "songHits [\<lparr>Hash_fm = ''a'', SongID_fm = 7, Offset_fm = 100\<rparr>,
             \<lparr>Hash_fm = ''b'', SongID_fm = 7, Offset_fm = 100\<rparr>,
             \<lparr>Hash_fm = ''c'', SongID_fm = 7, Offset_fm = 100\<rparr>,
             \<lparr>Hash_fm = ''d'', SongID_fm = 7, Offset_fm = 100\<rparr>,
             \<lparr>Hash_fm = ''e'', SongID_fm = 7, Offset_fm = 100\<rparr>] 7
   = [\<lparr>Hash_fm = ''a'', SongID_fm = 7, Offset_fm = 100\<rparr>,
      \<lparr>Hash_fm = ''b'', SongID_fm = 7, Offset_fm = 100\<rparr>,
      \<lparr>Hash_fm = ''c'', SongID_fm = 7, Offset_fm = 100\<rparr>,
      \<lparr>Hash_fm = ''d'', SongID_fm = 7, Offset_fm = 100\<rparr>,
      \<lparr>Hash_fm = ''e'', SongID_fm = 7, Offset_fm = 100\<rparr>]"
  by (simp add: songHits_def)

theorem matcher_scoring_witness:
  "fst (findMatches exampleOps exampleStore exampleQuery False) = Inr []
   \<and> fst (findMatches exampleOps exampleStore exampleQuery True) =
       Inr [\<lparr>SongID_m = 7, SongName = ''song'', Artist_m = ''artist'', Score = float64_0_1,
             Offset_m = 60, Timestamp = 0\<rparr>]
   \<and> (\<exists>ms. fst (findMatches exampleOps exampleStore exampleQuery False) = Inr ms
          \<and> 7 \<notin> SongID_m ` set ms)
   \<and> (\<exists>ms. fst (findMatches exampleOps exampleStore exampleQuery True) = Inr ms
          \<and> ((\<exists>m \<in> set ms. SongID_m m = 7 \<and> Score m = float64_0_1)
             \<or> (length ms = 5 \<and> (\<forall>m \<in> set ms. float64_0_1 \<le> Score m))))"
proof -
  let ?rows = "[\<lparr>Hash_fm = ''a'', SongID_fm = 7, Offset_fm = 100\<rparr>,
                \<lparr>Hash_fm = ''b'', SongID_fm = 7, Offset_fm = 100\<rparr>,
                \<lparr>Hash_fm = ''c'', SongID_fm = 7, Offset_fm = 100\<rparr>,
                \<lparr>Hash_fm = ''d'', SongID_fm = 7, Offset_fm = 100\<rparr>,
                \<lparr>Hash_fm = ''e'', SongID_fm = 7, Offset_fm = 100\<rparr>]"
  have h1: "batchLoop exampleStore (map fst exampleQuery) 0 [] []
      = (Inr ?rows, [[''a'', ''b'', ''c'', ''d'', ''e'']])"
    using example_batchLoop by (simp add: exampleQuery_def)
  have h2: "length (songHits ?rows 7) = 5
      \<and> (\<forall>r \<in> set (songHits ?rows 7). hitDelta exampleQuery r = 60)
      \<and> f64_div exampleOps 5 5 = 1 \<and> f64_mul exampleOps 5 1 = 5
      \<and> f64_div exampleOps 5 100 = float64_0_05 \<and> f64_div exampleOps 5 50 = float64_0_1"
    unfolding example_hits
    by (simp add: hitDelta_def exampleQuery_def map_index_def exampleOps_def exactOps_def)
  have h3: "GetSongByID exampleStore 7 = Inr \<lparr>Name = ''song'', Artist = ''artist''\<rparr>"
    by (simp add: exampleStore_def)
  note t = matcher_scoring [where ops = exampleOps and db = exampleStore and q = exampleQuery,
      OF h1, THEN conjunct2, THEN conjunct2, rule_format, OF h2]
  from t [THEN conjunct2, THEN conjunct1]
       t [THEN conjunct2, THEN conjunct2, THEN conjunct2, rule_format, OF h3]
  show ?thesis by (simp add: example_findMatches example_findMatches_file)
qed

section \<open>The peak picker\<close>


lemma rect_row:
  assumes "rectangular mags" "0 \<le> t" "t < int (length mags)"
  shows "length (mags ! nat t) = length (mags ! 0)"
  using assms by (simp add: rectangular_def)

lemma idx_cell:
  assumes "inGrid mags t f"
  shows "idx mags t = Some (mags ! nat t)" "idx (mags ! nat t) f = Some (cell mags t f)"
  using assms by (simp_all add: inGrid_def idx_def cell_def)

lemma neighbourLoop_spec:
  assumes "rectangular mags"
  shows "neighbourLoop mags t f v offs =
     Some (\<forall>(dt, df) \<in> set offs. (dt, df) \<noteq> (0, 0) \<and> inGrid mags (t + dt) (f + df) \<longrightarrow>
              cell mags (t + dt) (f + df) < v)"
proof (induction offs)
  case Nil
  then show ?case by simp
next
  case (Cons off offs)
  obtain dt df where o: "off = (dt, df)" by (cases off)
  have g: "(t + dt \<ge> 0 \<and> t + dt < int (length mags) \<and> f + df \<ge> 0
            \<and> f + df < int (length (mags ! 0))) = inGrid mags (t + dt) (f + df)"
    using rect_row [OF assms, of "t + dt"] by (auto simp: inGrid_def)
  have step: "neighbourLoop mags t f v (off # offs) =
      (if dt = 0 \<and> df = 0 then neighbourLoop mags t f v offs
       else if inGrid mags (t + dt) (f + df) then
         (case idx mags (t + dt) of
            None \<Rightarrow> None
          | Some row \<Rightarrow>
              (case idx row (f + df) of
                 None \<Rightarrow> None
               | Some va \<Rightarrow> if v \<le> va then Some False else neighbourLoop mags t f v offs))
       else neighbourLoop mags t f v offs)"
    unfolding o by (simp only: neighbourLoop.simps Let_def g)
  show ?case
  proof (cases "(dt, df) \<noteq> (0, 0) \<and> inGrid mags (t + dt) (f + df)")
    case False
    then have "neighbourLoop mags t f v (off # offs) = neighbourLoop mags t f v offs"
      unfolding step by auto
    then show ?thesis using Cons.IH False o by (auto simp del: neighbourLoop.simps)
  next
    case True
    then have "neighbourLoop mags t f v (off # offs) =
        (if v \<le> cell mags (t + dt) (f + df) then Some False else neighbourLoop mags t f v offs)"
      unfolding step using idx_cell [of mags "t + dt" "f + df"] by auto
    then show ?thesis using Cons.IH True o by (auto simp del: neighbourLoop.simps)
  qed
qed

lemma set_neighbourOffsets: "set neighbourOffsets = {-1, 0, 1} \<times> {-1, 0, 1}"
  by (auto simp: neighbourOffsets_def)

lemma isLocalPeak_spec:
  assumes "rectangular mags" "inGrid mags t f"
  shows "isLocalPeak mags t f = Some (strictLocalMax mags t f)"
proof -
  have "(\<forall>(dt, df) \<in> set neighbourOffsets. (dt, df) \<noteq> (0, 0) \<and> inGrid mags (t + dt) (f + df) \<longrightarrow>
              cell mags (t + dt) (f + df) < cell mags t f) = strictLocalMax mags t f"
    unfolding set_neighbourOffsets strictLocalMax_def by auto
  then show ?thesis
    using idx_cell [OF assms(2)] by (simp add: isLocalPeak_def neighbourLoop_spec [OF assms(1)])
qed


lemma scanInv_keep:
  assumes "scanInv mags t lo f mm mb" "strictLocalMax mags t f \<longrightarrow> cell mags t f \<le> mm"
  shows "scanInv mags t lo (f + 1) mm mb"
proof -
  have less: "g < f + 1 \<longleftrightarrow> g < f \<or> g = f" for g by auto
  from assms(1) show ?thesis unfolding scanInv_def
  proof (elim disjE conjE)
    assume a: "mb = -1" "mm = 0"
      "\<forall>g. lo \<le> g \<and> g < f \<and> strictLocalMax mags t g \<longrightarrow> cell mags t g \<le> 0"
    then have "\<forall>g. lo \<le> g \<and> g < f + 1 \<and> strictLocalMax mags t g \<longrightarrow> cell mags t g \<le> 0"
      using assms(2) unfolding less by auto
    with a show "(mb = -1 \<and> mm = 0
      \<and> (\<forall>g. lo \<le> g \<and> g < f + 1 \<and> strictLocalMax mags t g \<longrightarrow> cell mags t g \<le> 0))
     \<or> (lo \<le> mb \<and> mb < f + 1 \<and> mm = cell mags t mb \<and> 0 < mm
         \<and> strictLocalMax mags t mb
         \<and> (\<forall>g. lo \<le> g \<and> g < f + 1 \<and> strictLocalMax mags t g \<longrightarrow>
                cell mags t g \<le> mm \<and> (cell mags t g = mm \<longrightarrow> mb \<le> g)))"
      by blast
  next
    assume a: "lo \<le> mb" "mb < f" "mm = cell mags t mb" "0 < mm" "strictLocalMax mags t mb"
      "\<forall>g. lo \<le> g \<and> g < f \<and> strictLocalMax mags t g \<longrightarrow>
                cell mags t g \<le> mm \<and> (cell mags t g = mm \<longrightarrow> mb \<le> g)"
    then have "\<forall>g. lo \<le> g \<and> g < f + 1 \<and> strictLocalMax mags t g \<longrightarrow>
                cell mags t g \<le> mm \<and> (cell mags t g = mm \<longrightarrow> mb \<le> g)"
      using assms(2) unfolding less by auto
    moreover have "mb < f + 1" using a(2) by simp
    ultimately show "(mb = -1 \<and> mm = 0
      \<and> (\<forall>g. lo \<le> g \<and> g < f + 1 \<and> strictLocalMax mags t g \<longrightarrow> cell mags t g \<le> 0))
     \<or> (lo \<le> mb \<and> mb < f + 1 \<and> mm = cell mags t mb \<and> 0 < mm
         \<and> strictLocalMax mags t mb
         \<and> (\<forall>g. lo \<le> g \<and> g < f + 1 \<and> strictLocalMax mags t g \<longrightarrow>
                cell mags t g \<le> mm \<and> (cell mags t g = mm \<longrightarrow> mb \<le> g)))"
      using a by blast
  qed
qed

lemma scanInv_take:
  assumes "scanInv mags t lo f mm mb" "lo \<le> f" "mm < cell mags t f" "strictLocalMax mags t f"
  shows "scanInv mags t lo (f + 1) (cell mags t f) f"
proof -
  have less: "g < f + 1 \<longleftrightarrow> g < f \<or> g = f" for g by auto
  have pos: "0 \<le> mm" using assms(1) by (auto simp: scanInv_def)
  have below: "cell mags t g \<le> mm" if "lo \<le> g" "g < f" "strictLocalMax mags t g" for g
    using assms(1) that by (auto simp: scanInv_def)
  have "\<forall>g. lo \<le> g \<and> g < f + 1 \<and> strictLocalMax mags t g \<longrightarrow>
           cell mags t g \<le> cell mags t f \<and> (cell mags t g = cell mags t f \<longrightarrow> f \<le> g)"
    unfolding less using below assms(3) by fastforce
  then show ?thesis
    unfolding scanInv_def using assms(2,3,4) pos by auto
qed

lemma bandScan_spec:
  assumes rect: "rectangular mags" and t: "0 \<le> t" "t < int (length mags)"
      and hi: "hi < int (length (mags ! nat t))"
  shows "0 \<le> lo \<Longrightarrow> lo \<le> f \<Longrightarrow> scanInv mags t lo f mm mb \<Longrightarrow>
     \<exists>mm' mb'. bandScan mags (mags ! nat t) t f hi mm mb = Some (mm', mb')
        \<and> scanInv mags t lo (max f (hi + 1)) mm' mb'"
proof (induction "nat (hi + 1 - f)" arbitrary: f mm mb rule: less_induct)
  case less
  show ?case
  proof (cases "f \<le> hi")
    case False
    then have "bandScan mags (mags ! nat t) t f hi mm mb = Some (mm, mb)"
      using bandScan.simps [of mags "mags ! nat t" t f hi mm mb] by simp
    moreover have "max f (hi + 1) = f" using False by simp
    ultimately show ?thesis using less.prems by simp
  next
    case True
    have g: "inGrid mags t f" using True less.prems t hi by (simp add: inGrid_def)
    have m: "nat (hi + 1 - (f + 1)) < nat (hi + 1 - f)" using True by simp
    have mx: "max (f + 1) (hi + 1) = max f (hi + 1)" using True by simp
    have lo: "lo \<le> f + 1" using less.prems by simp
    have u: "bandScan mags (mags ! nat t) t f hi mm mb =
        (if cell mags t f > mm then
           if strictLocalMax mags t f
           then bandScan mags (mags ! nat t) t (f + 1) hi (cell mags t f) f
           else bandScan mags (mags ! nat t) t (f + 1) hi mm mb
         else bandScan mags (mags ! nat t) t (f + 1) hi mm mb)"
      using True bandScan.simps [of mags "mags ! nat t" t f hi mm mb]
        idx_cell(2) [OF g] isLocalPeak_spec [OF rect g] by simp
    show ?thesis
    proof (cases "cell mags t f > mm \<and> strictLocalMax mags t f")
      case True
      then have "scanInv mags t lo (f + 1) (cell mags t f) f"
        using scanInv_take [OF less.prems(3) less.prems(2)] by simp
      from less.hyps [OF m less.prems(1) lo this] True show ?thesis
        unfolding u mx by simp
    next
      case False
      then have "scanInv mags t lo (f + 1) mm mb"
        using scanInv_keep [OF less.prems(3)] by auto
      from less.hyps [OF m less.prems(1) lo this] False show ?thesis
        unfolding u mx by auto
    qed
  qed
qed

lemma threshold_pos: "0 < PEAK_THRESHOLD"
  by (simp add: PEAK_THRESHOLD_def float64_0_02_def)

lemma scanInv_final:
  assumes "scanInv mags t lo (max lo (hi + 1)) mm mb"
  shows "(mb = -1 \<and> mm = 0
          \<and> (\<forall>g. lo \<le> g \<and> g \<le> hi \<and> strictLocalMax mags t g \<longrightarrow> cell mags t g \<le> 0))
     \<or> (lo \<le> mb \<and> mb \<le> hi \<and> mm = cell mags t mb \<and> 0 < mm
         \<and> strictLocalMax mags t mb
         \<and> (\<forall>g. lo \<le> g \<and> g \<le> hi \<and> strictLocalMax mags t g \<longrightarrow>
                cell mags t g \<le> mm \<and> (cell mags t g = mm \<longrightarrow> mb \<le> g)))"
proof -
  have r: "lo \<le> g \<and> g < max lo (hi + 1) \<longleftrightarrow> lo \<le> g \<and> g \<le> hi" for g by auto
  have r2: "lo \<le> g \<and> g < max lo (hi + 1) \<and> P \<longleftrightarrow> lo \<le> g \<and> g \<le> hi \<and> P" for g P by auto
  from assms show ?thesis unfolding scanInv_def r r2 .
qed

lemma bandStep_spec:
  assumes rect: "rectangular mags" and t: "t < length mags" and lo: "0 \<le> Start band"
  shows "\<exists>ps. bandStep mags (mags ! t) (int t) timeMS band = Some ps
     \<and> length ps \<le> 1
     \<and> (\<forall>p \<in> set ps. Time p = real t \<and> TimeMS p = timeMS
            \<and> Magnitude p = cell mags (int t) (FreqBin p))
     \<and> (\<forall>f. (\<exists>p \<in> set ps. FreqBin p = f) \<longleftrightarrow>
            End band < int (length (mags ! t)) \<and> isBandPeak mags (int t) band f)"
proof (cases "Start band \<ge> int (length (mags ! t)) \<or> End band \<ge> int (length (mags ! t))")
  case True
  then have s: "bandStep mags (mags ! t) (int t) timeMS band = Some []"
    by (simp add: bandStep_def)
  have "\<not> (End band < int (length (mags ! t)) \<and> isBandPeak mags (int t) band f)" for f
  proof
    assume a: "End band < int (length (mags ! t)) \<and> isBandPeak mags (int t) band f"
    then have "Start band \<le> f" "f \<le> End band" by (simp_all add: isBandPeak_def)
    with a True show False by linarith
  qed
  then show ?thesis unfolding s by simp
next
  case False
  then have hi: "End band < int (length (mags ! nat (int t)))" by simp
  have hi': "End band < int (length (mags ! t))" using False by simp
  have init: "scanInv mags (int t) (Start band) (Start band) 0 (-1)"
    by (simp add: scanInv_def)
  have t0: "0 \<le> int t" "int t < int (length mags)" using t by simp_all
  from bandScan_spec [OF rect t0 hi lo order_refl init]
  obtain mm mb where
    b: "bandScan mags (mags ! nat (int t)) (int t) (Start band) (End band) 0 (-1) = Some (mm, mb)"
    and inv: "scanInv mags (int t) (Start band) (max (Start band) (End band + 1)) mm mb"
    by blast
  have b': "bandScan mags (mags ! t) (int t) (Start band) (End band) 0 (-1) = Some (mm, mb)"
    using b by simp
  note fin = scanInv_final [OF inv]
  show ?thesis
  proof (cases "mb \<noteq> -1 \<and> mm > PEAK_THRESHOLD")
    case True
    let ?p = "\<lparr>Time = real_of_int (int t), TimeMS = timeMS, Magnitude = mm, FreqBin = mb\<rparr>"
    have s: "bandStep mags (mags ! t) (int t) timeMS band = Some [?p]"
      using False True b' by (simp add: bandStep_def)
    from fin True have i:
      "Start band \<le> mb" "mb \<le> End band" "mm = cell mags (int t) mb"
      "strictLocalMax mags (int t) mb"
      and mx: "\<forall>g. Start band \<le> g \<and> g \<le> End band \<and> strictLocalMax mags (int t) g
          \<longrightarrow> cell mags (int t) g \<le> mm \<and> (cell mags (int t) g = mm \<longrightarrow> mb \<le> g)"
      by blast+
    have peak: "isBandPeak mags (int t) band mb"
      unfolding isBandPeak_def using i mx True by simp
    have uniq: "f = mb" if "isBandPeak mags (int t) band f" for f
    proof -
      from that have f: "Start band \<le> f" "f \<le> End band" "strictLocalMax mags (int t) f"
        and fm: "\<forall>g. Start band \<le> g \<and> g \<le> End band \<and> strictLocalMax mags (int t) g \<longrightarrow>
            cell mags (int t) g \<le> cell mags (int t) f
            \<and> (cell mags (int t) g = cell mags (int t) f \<longrightarrow> f \<le> g)"
        unfolding isBandPeak_def by blast+
      from fm i have 1: "cell mags (int t) mb \<le> cell mags (int t) f"
        "cell mags (int t) mb = cell mags (int t) f \<longrightarrow> f \<le> mb" by blast+
      from mx f have 2: "cell mags (int t) f \<le> mm" "cell mags (int t) f = mm \<longrightarrow> mb \<le> f"
        by blast+
      from 1 2 i(3) show ?thesis by linarith
    qed
    have "(\<exists>p \<in> set [?p]. FreqBin p = f) \<longleftrightarrow>
            End band < int (length (mags ! t)) \<and> isBandPeak mags (int t) band f" for f
      using peak uniq [of f] hi' by auto
    then show ?thesis unfolding s using i(3) by simp
  next
    case no: False
    have s: "bandStep mags (mags ! t) (int t) timeMS band = Some []"
      using False no b' by (auto simp: bandStep_def)
    have "\<not> isBandPeak mags (int t) band f" for f
    proof
      assume p: "isBandPeak mags (int t) band f"
      then have f: "Start band \<le> f" "f \<le> End band" "strictLocalMax mags (int t) f"
        "PEAK_THRESHOLD < cell mags (int t) f"
        unfolding isBandPeak_def by blast+
      from fin show False
      proof (elim disjE conjE)
        assume "\<forall>g. Start band \<le> g \<and> g \<le> End band
            \<and> strictLocalMax mags (int t) g \<longrightarrow> cell mags (int t) g \<le> 0"
        with f have "cell mags (int t) f \<le> 0" by blast
        with f(4) threshold_pos show False by simp
      next
        assume a: "Start band \<le> mb"
          "\<forall>g. Start band \<le> g \<and> g \<le> End band
            \<and> strictLocalMax mags (int t) g \<longrightarrow>
              cell mags (int t) g \<le> mm \<and> (cell mags (int t) g = mm \<longrightarrow> mb \<le> g)"
        with f have "cell mags (int t) f \<le> mm" by blast
        with f(4) have "PEAK_THRESHOLD < mm" by simp
        moreover have "mb \<noteq> -1" using a(1) lo by auto
        ultimately show False using no by simp
      qed
    qed
    then show ?thesis unfolding s by simp
  qed
qed

lemma bandLoop_spec:
  assumes "\<forall>band \<in> set bands. bandStep mags frame t timeMS band \<noteq> None"
  shows "bandLoop mags frame t timeMS bands peaks =
     Some (peaks @ concat (map (\<lambda>band. case bandStep mags frame t timeMS band of
                                          None \<Rightarrow> [] | Some new \<Rightarrow> new) bands))"
  using assms by (induction bands arbitrary: peaks) auto

lemma frameLoop_spec:
  assumes "\<forall>t < length mags. \<forall>band \<in> set bands.
             bandStep mags (mags ! t) (int t) (frameTimeMS ops t (go_quot WINDOW_SIZE 4) sr) band \<noteq> None"
  shows "frameLoop ops mags (go_quot WINDOW_SIZE 4) sr bands t peaks =
     Some (peaks @ concat (map (\<lambda>t. concat (map (emitted ops mags sr t) bands)) [t ..< length mags]))"
proof (induction "length mags - t" arbitrary: t peaks rule: less_induct)
  case less
  show ?case
  proof (cases "t < length mags")
    case False
    then show ?thesis
      using frameLoop.simps [of ops mags "go_quot WINDOW_SIZE 4" sr bands t peaks] by simp
  next
    case True
    have m: "length mags - (t + 1) < length mags - t" using True by arith
    have e: "(\<lambda>band. case bandStep mags (mags ! t) (int t)
                              (frameTimeMS ops t (go_quot WINDOW_SIZE 4) sr) band of
                         None \<Rightarrow> [] | Some new \<Rightarrow> new) = emitted ops mags sr t"
      by (rule ext) (simp add: emitted_def)
    have "\<forall>band \<in> set bands.
        bandStep mags (mags ! t) (int t) (frameTimeMS ops t (go_quot WINDOW_SIZE 4) sr) band \<noteq> None"
      using assms True by blast
    then have b: "bandLoop mags (mags ! t) (int t) (frameTimeMS ops t (go_quot WINDOW_SIZE 4) sr) bands peaks
        = Some (peaks @ concat (map (emitted ops mags sr t) bands))"
      unfolding e [symmetric] by (rule bandLoop_spec)
    have u: "[t ..< length mags] = t # [t + 1 ..< length mags]"
      using True by (simp add: upt_conv_Cons)
    have "frameLoop ops mags (go_quot WINDOW_SIZE 4) sr bands t peaks =
        frameLoop ops mags (go_quot WINDOW_SIZE 4) sr bands (t + 1)
          (peaks @ concat (map (emitted ops mags sr t) bands))"
      using True frameLoop.simps [of ops mags "go_quot WINDOW_SIZE 4" sr bands t peaks]
      by (simp add: Let_def b)
    then show ?thesis unfolding u using less.hyps [OF m] by simp
  qed
qed

lemma go_int_nonneg: "0 \<le> x \<Longrightarrow> 0 \<le> go_int x"
  by (simp add: go_int_def)

lemma clampBand_nonneg: "0 \<le> m \<Longrightarrow> 0 \<le> Start b \<Longrightarrow> 0 \<le> Start (clampBand m b)"
  by (simp add: clampBand_def Let_def)

lemma bands_nonneg:
  assumes "0 \<le> sr" "band \<in> set (getFrequencyBands sr WINDOW_SIZE)"
  shows "0 \<le> Start band"
proof -
  define q where "q = real_of_int (go_quot sr 2) / real_of_int (go_quot WINDOW_SIZE 2)"
  define raw where "raw =
     [\<lparr>Start = go_int (40 / q), End = go_int (80 / q)\<rparr>,
      \<lparr>Start = go_int (80 / q), End = go_int (120 / q)\<rparr>,
      \<lparr>Start = go_int (120 / q), End = go_int (180 / q)\<rparr>,
      \<lparr>Start = go_int (180 / q), End = go_int (300 / q)\<rparr>,
      \<lparr>Start = go_int (300 / q), End = go_int (2000 / q)\<rparr>,
      \<lparr>Start = go_int (2000 / q), End = go_int (5000 / q)\<rparr>]"
  have q: "0 \<le> q"
    using assms(1) by (simp add: q_def go_quot_def WINDOW_SIZE_def sgn_if)
  have n: "0 \<le> go_int (c / q)" if "0 \<le> c" for c :: real
    by (rule go_int_nonneg, rule divide_nonneg_nonneg [OF that q])
  have r: "0 \<le> Start b" if "b \<in> set raw" for b
    using that n unfolding raw_def by auto
  have m: "0 \<le> go_quot WINDOW_SIZE 2 - 1" by (simp add: go_quot_def WINDOW_SIZE_def)
  have "getFrequencyBands sr WINDOW_SIZE = map (clampBand (go_quot WINDOW_SIZE 2 - 1)) raw"
    by (simp add: getFrequencyBands_def Let_def raw_def q_def)
  with assms(2) obtain b where "b \<in> set raw" "band = clampBand (go_quot WINDOW_SIZE 2 - 1) b"
    by auto
  then show ?thesis using clampBand_nonneg [OF m r] by simp
qed

lemma rectangular_getMagnitudes:
  assumes "rectangular spectrogram"
  shows "rectangular (getMagnitudes ops spectrogram)"
  unfolding rectangular_def
proof
  fix row assume "row \<in> set (getMagnitudes ops spectrogram)"
  then obtain r where r: "r \<in> set spectrogram" "row = map (f64_abs ops) r"
    by (auto simp: getMagnitudes_def)
  then have "0 < length spectrogram" by (cases spectrogram) simp_all
  then have "getMagnitudes ops spectrogram ! 0 = map (f64_abs ops) (spectrogram ! 0)"
    by (simp add: getMagnitudes_def)
  moreover have "length r = length (spectrogram ! 0)"
    using assms r(1) by (simp add: rectangular_def)
  ultimately show "length row = length (getMagnitudes ops spectrogram ! 0)"
    using r(2) by simp
qed

lemma emitted_spec:
  assumes "rectangular mags" "t < length mags" "0 \<le> sr" "band \<in> set (getFrequencyBands sr WINDOW_SIZE)"
  shows "bandStep mags (mags ! t) (int t) (frameTimeMS ops t (go_quot WINDOW_SIZE 4) sr) band
           = Some (emitted ops mags sr t band)"
    and "length (emitted ops mags sr t band) \<le> 1"
    and "\<forall>p \<in> set (emitted ops mags sr t band). Time p = real t
            \<and> Magnitude p = cell mags (int t) (FreqBin p)"
    and "\<forall>f. (\<exists>p \<in> set (emitted ops mags sr t band). FreqBin p = f) \<longleftrightarrow>
            End band < int (length (mags ! t)) \<and> isBandPeak mags (int t) band f"
proof -
  from bandStep_spec [OF assms(1,2) bands_nonneg [OF assms(3,4)],
      of "frameTimeMS ops t (go_quot WINDOW_SIZE 4) sr"]
  obtain ps where ps:
    "bandStep mags (mags ! t) (int t) (frameTimeMS ops t (go_quot WINDOW_SIZE 4) sr) band = Some ps"
    "length ps \<le> 1"
    "\<forall>p \<in> set ps. Time p = real t \<and> TimeMS p = frameTimeMS ops t (go_quot WINDOW_SIZE 4) sr
            \<and> Magnitude p = cell mags (int t) (FreqBin p)"
    "\<forall>f. (\<exists>p \<in> set ps. FreqBin p = f) \<longleftrightarrow>
            End band < int (length (mags ! t)) \<and> isBandPeak mags (int t) band f"
    by blast
  have e: "emitted ops mags sr t band = ps" by (simp add: emitted_def ps(1))
  show "bandStep mags (mags ! t) (int t) (frameTimeMS ops t (go_quot WINDOW_SIZE 4) sr) band
           = Some (emitted ops mags sr t band)"
    and "length (emitted ops mags sr t band) \<le> 1"
    and "\<forall>p \<in> set (emitted ops mags sr t band). Time p = real t
            \<and> Magnitude p = cell mags (int t) (FreqBin p)"
    and "\<forall>f. (\<exists>p \<in> set (emitted ops mags sr t band). FreqBin p = f) \<longleftrightarrow>
            End band < int (length (mags ! t)) \<and> isBandPeak mags (int t) band f"
    unfolding e using ps by simp_all
qed

lemma emitted_empty_row:
  assumes "rectangular mags" "t < length mags" "0 \<le> sr" "band \<in> set (getFrequencyBands sr WINDOW_SIZE)"
    and "length (mags ! t) = 0"
  shows "emitted ops mags sr t band = []"
proof -
  have "Start band \<ge> int (length (mags ! t))"
    using bands_nonneg [OF assms(3,4)] assms(5) by simp
  then show ?thesis by (simp add: emitted_def bandStep_def)
qed

text \<open>
  Claim C5: on a rectangular grid, at a sample rate of at least 2 Hz, the picker returns
  the peaks of the frames in order and, in a frame, of the bands in order, none or one per
  frame and band. A band of a frame yields a peak at bin \<open>f\<close> exactly when the band lies on
  the grid and \<open>f\<close> is, among the bins of the band that are strict local maxima of the 3\<times>3
  neighbourhood on the grid, one of largest magnitude, the lowest such bin, and its
  magnitude is above the threshold. Every peak has a magnitude above the threshold that
  is strictly greater than that of each neighbour on the grid. The grid holds the results
  of \<open>cmplx.Abs\<close> and the threshold is the float64 constant \<open>0.02\<close>, which is above
  \<open>1 / 50\<close>; the statement holds whatever the float64 operations are.
\<close>

theorem PickPeaks_local_maxima:
  fixes ops :: Float64 and spectrogram :: "complex list list" and sr :: int
  defines "mags \<equiv> getMagnitudes ops spectrogram"
      and "bands \<equiv> getFrequencyBands sr WINDOW_SIZE"
  assumes rect: "rectangular spectrogram" and sr: "2 \<le> sr"
  shows "\<exists>peaks. PickPeaks ops spectrogram sr = Inr peaks
     \<and> peaks = concat (map (\<lambda>t. concat (map (emitted ops mags sr t) bands)) [0 ..< length mags])
     \<and> (\<forall>p \<in> set peaks. PEAK_THRESHOLD < Magnitude p \<and> 1 / 50 < Magnitude p
          \<and> (\<exists>t < length mags. Time p = real t
                \<and> inGrid mags (int t) (FreqBin p)
                \<and> Magnitude p = cell mags (int t) (FreqBin p)
                \<and> strictLocalMax mags (int t) (FreqBin p)))
     \<and> (\<forall>t < length mags. \<forall>band \<in> set bands.
           length (emitted ops mags sr t band) \<le> 1
           \<and> (\<forall>f. (\<exists>p \<in> set (emitted ops mags sr t band). FreqBin p = f) \<longleftrightarrow>
                  End band < int (length (mags ! t)) \<and> isBandPeak mags (int t) band f))"
proof -
  let ?all = "concat (map (\<lambda>t. concat (map (emitted ops mags sr t) bands)) [0 ..< length mags])"
  have rm: "rectangular mags" unfolding mags_def by (rule rectangular_getMagnitudes [OF rect])
  have sr0: "0 \<le> sr" using sr by simp
  note em = emitted_spec [OF rm _ sr0, folded bands_def]
  have ret: "PickPeaks ops spectrogram sr = Inr ?all"
  proof (cases "length spectrogram = 0 \<or> length (spectrogram ! 0) = 0")
    case True
    have "emitted ops mags sr t band = []" if "t < length mags" "band \<in> set bands" for t band
    proof -
      from True that(1) have "length (spectrogram ! 0) = 0" by (auto simp: mags_def getMagnitudes_def)
      moreover have "0 < length spectrogram" using that(1) by (auto simp: mags_def getMagnitudes_def)
      ultimately have "length (mags ! 0) = 0" by (simp add: mags_def getMagnitudes_def)
      then have "length (mags ! t) = 0" using rm that(1) by (simp add: rectangular_def)
      then show ?thesis
        using emitted_empty_row [OF rm that(1) sr0] that(2) by (simp add: bands_def)
    qed
    then have "concat (map (emitted ops mags sr t) bands) = []" if "t < length mags" for t
      using that by simp
    then have "?all = []" by simp
    then show ?thesis using True by (simp add: PickPeaks_def)
  next
    case False
    have "\<forall>t < length mags. \<forall>band \<in> set bands.
        bandStep mags (mags ! t) (int t) (frameTimeMS ops t (go_quot WINDOW_SIZE 4) sr) band \<noteq> None"
      using em(1) by simp
    from frameLoop_spec [OF this, of 0 "[]"] False show ?thesis
      by (simp add: PickPeaks_def Let_def mags_def bands_def)
  qed
  have per: "length (emitted ops mags sr t band) \<le> 1
           \<and> (\<forall>f. (\<exists>p \<in> set (emitted ops mags sr t band). FreqBin p = f) \<longleftrightarrow>
                  End band < int (length (mags ! t)) \<and> isBandPeak mags (int t) band f)"
    if "t < length mags" "band \<in> set bands" for t band
    using em(2) [OF that] em(4) [OF that] by simp
  have each: "PEAK_THRESHOLD < Magnitude p \<and> 1 / 50 < Magnitude p
          \<and> (\<exists>t < length mags. Time p = real t
                \<and> inGrid mags (int t) (FreqBin p)
                \<and> Magnitude p = cell mags (int t) (FreqBin p)
                \<and> strictLocalMax mags (int t) (FreqBin p))"
    if "p \<in> set ?all" for p
  proof -
    from that obtain t band where tb: "t < length mags" "band \<in> set bands"
      "p \<in> set (emitted ops mags sr t band)" by auto
    from em(3) [OF tb(1,2)] tb(3) have f: "Time p = real t"
      "Magnitude p = cell mags (int t) (FreqBin p)" by simp_all
    from em(4) [OF tb(1,2)] tb(3) have
      hi: "End band < int (length (mags ! t))" and bp: "isBandPeak mags (int t) band (FreqBin p)"
      by blast+
    from bp have b: "Start band \<le> FreqBin p" "FreqBin p \<le> End band"
      "strictLocalMax mags (int t) (FreqBin p)" "PEAK_THRESHOLD < cell mags (int t) (FreqBin p)"
      unfolding isBandPeak_def by blast+
    have "0 \<le> Start band" using bands_nonneg [OF sr0] tb(2) by (simp add: bands_def)
    then have "inGrid mags (int t) (FreqBin p)"
      using b(1,2) hi tb(1) by (simp add: inGrid_def)
    moreover have "1 / 50 < Magnitude p"
      using f(2) b(4) by (simp add: PEAK_THRESHOLD_def float64_0_02_def)
    ultimately show ?thesis using f b tb(1) by auto
  qed
  show ?thesis
  proof (intro exI conjI)
    show "PickPeaks ops spectrogram sr = Inr ?all" by (rule ret)
    show "?all = ?all" by (rule refl)
    show "\<forall>p \<in> set ?all. PEAK_THRESHOLD < Magnitude p \<and> 1 / 50 < Magnitude p
          \<and> (\<exists>t < length mags. Time p = real t
                \<and> inGrid mags (int t) (FreqBin p)
                \<and> Magnitude p = cell mags (int t) (FreqBin p)
                \<and> strictLocalMax mags (int t) (FreqBin p))"
      using each by blast
    show "\<forall>t < length mags. \<forall>band \<in> set bands.
           length (emitted ops mags sr t band) \<le> 1
           \<and> (\<forall>f. (\<exists>p \<in> set (emitted ops mags sr t band). FreqBin p = f) \<longleftrightarrow>
                  End band < int (length (mags ! t)) \<and> isBandPeak mags (int t) band f)"
      using per by blast
  qed
qed

lemma example_magnitudes:
  "getMagnitudes exactOps exampleGrid =
     [[0.125, 0, 0, 0, 0],
      [0, 0.5, 0.0078125, 0.25, 0],
      [0, 0, 0, 0, 0.25]]"
  by (simp add: getMagnitudes_def exampleGrid_def exactOps_def)

lemma example_bands:
  "getFrequencyBands 4194304 WINDOW_SIZE =
     [\<lparr>Start = 0, End = 0\<rparr>, \<lparr>Start = 0, End = 0\<rparr>, \<lparr>Start = 0, End = 0\<rparr>,
      \<lparr>Start = 0, End = 0\<rparr>, \<lparr>Start = 0, End = 1\<rparr>, \<lparr>Start = 1, End = 4\<rparr>]"
  by (simp add: getFrequencyBands_def WINDOW_SIZE_def go_quot_def go_int_def clampBand_def Let_def)

lemma example_rectangular: "rectangular exampleGrid"
  by (simp add: rectangular_def exampleGrid_def)

lemma example_PickPeaks:
  "PickPeaks exactOps exampleGrid 4194304 =
     Inr [\<lparr>Time = 1, TimeMS = 125 / 512, Magnitude = 0.5, FreqBin = 1\<rparr>,
          \<lparr>Time = 1, TimeMS = 125 / 512, Magnitude = 0.5, FreqBin = 1\<rparr>]"
proof -
  have n: "length exampleGrid \<noteq> 0" "length (exampleGrid ! 0) \<noteq> 0"
    by (simp_all add: exampleGrid_def)
  show ?thesis
    unfolding PickPeaks_def Let_def example_magnitudes example_bands
    using n
    by (simp add: frameLoop.simps bandStep_def bandScan.simps isLocalPeak_def idx_def
        neighbourOffsets_def frameTimeMS_def go_quot_def WINDOW_SIZE_def PEAK_THRESHOLD_def
        float64_0_02_def exactOps_def Let_def)
qed

theorem PickPeaks_local_maxima_witness:
  "rectangular exampleGrid \<and> (2 :: int) \<le> 4194304
   \<and> PickPeaks exactOps exampleGrid 4194304 =
       Inr [\<lparr>Time = 1, TimeMS = 125 / 512, Magnitude = 0.5, FreqBin = 1\<rparr>,
            \<lparr>Time = 1, TimeMS = 125 / 512, Magnitude = 0.5, FreqBin = 1\<rparr>]
   \<and> strictLocalMax (getMagnitudes exactOps exampleGrid) 1 1"
proof -
  have s: "(2 :: int) \<le> 4194304" by simp
  from PickPeaks_local_maxima [where ops = exactOps, OF example_rectangular s]
  obtain peaks where p: "PickPeaks exactOps exampleGrid 4194304 = Inr peaks"
    "\<forall>p \<in> set peaks. PEAK_THRESHOLD < Magnitude p \<and> 1 / 50 < Magnitude p
          \<and> (\<exists>t < length (getMagnitudes exactOps exampleGrid). Time p = real t
                \<and> inGrid (getMagnitudes exactOps exampleGrid) (int t) (FreqBin p)
                \<and> Magnitude p = cell (getMagnitudes exactOps exampleGrid) (int t) (FreqBin p)
                \<and> strictLocalMax (getMagnitudes exactOps exampleGrid) (int t) (FreqBin p))"
    by blast
  from p(1) have e: "peaks = [\<lparr>Time = 1, TimeMS = 125 / 512, Magnitude = 0.5, FreqBin = 1\<rparr>,
            \<lparr>Time = 1, TimeMS = 125 / 512, Magnitude = 0.5, FreqBin = 1\<rparr>]"
    by (simp add: example_PickPeaks)
  from p(2) have "strictLocalMax (getMagnitudes exactOps exampleGrid) 1 1"
    unfolding e by auto
  then show ?thesis using example_rectangular example_PickPeaks by simp
qed

section \<open>File recognition\<close>

lemma recognize_limited:
  assumes "ConvertToWAV ext audioPath ''recognize_output.wav'' = Inr filePath"
      and "ReadWavInfo ext filePath = Inr wavInfo"
  shows "Recognize ops ext db audioPath =
     (if SampleRate wavInfo < 0 then Inl Panic
      else recognizeSamples ops ext db (take (nat (SampleRate wavInfo * 30)) (Samples wavInfo))
             (SampleRate wavInfo))"
proof (cases "int (length (Samples wavInfo)) > SampleRate wavInfo * 30")
  case True
  show ?thesis
  proof (cases "SampleRate wavInfo < 0")
    case neg: True
    then have "slice_to (Samples wavInfo) (SampleRate wavInfo * 30) = None"
      by (simp add: slice_to_def)
    then show ?thesis using assms True neg by (simp add: Recognize_def Let_def)
  next
    case False
    then have "slice_to (Samples wavInfo) (SampleRate wavInfo * 30)
        = Some (take (nat (SampleRate wavInfo * 30)) (Samples wavInfo))"
      using True by (simp add: slice_to_def)
    then show ?thesis using assms True False by (simp add: Recognize_def Let_def)
  qed
next
  case False
  then have n: "\<not> SampleRate wavInfo < 0" by linarith
  from False have "length (Samples wavInfo) \<le> nat (SampleRate wavInfo * 30)" by linarith
  then have "take (nat (SampleRate wavInfo * 30)) (Samples wavInfo) = Samples wavInfo" by simp
  then show ?thesis using assms False n by (simp add: Recognize_def Let_def)
qed

text \<open>
  Claim C10: when the decoder yields a sample vector at a sample rate that is not negative,
  \<open>Recognize\<close> works on the first \<open>30 \<sqdot> sample_rate\<close> samples only: that prefix is what the
  spectrogram is computed from. Two decoded files of the same sample rate that agree on
  their first \<open>30 \<sqdot> sample_rate\<close> samples are recognised alike.
\<close>

theorem Recognize_first_30_seconds:
  "(\<forall>filePath wavInfo.
      ConvertToWAV ext audioPath ''recognize_output.wav'' = Inr filePath
      \<and> ReadWavInfo ext filePath = Inr wavInfo \<and> 0 \<le> SampleRate wavInfo \<longrightarrow>
        Recognize ops ext db audioPath =
          recognizeSamples ops ext db (take (nat (SampleRate wavInfo * 30)) (Samples wavInfo))
            (SampleRate wavInfo))
   \<and> (\<forall>sr s1 s2.
        take (nat (sr * 30)) s1 = take (nat (sr * 30)) s2 \<longrightarrow>
          Recognize ops (ext\<lparr>ReadWavInfo := \<lambda>filePath. Inr \<lparr>SampleRate = sr, Samples = s1\<rparr>\<rparr>) db audioPath
          = Recognize ops (ext\<lparr>ReadWavInfo := \<lambda>filePath. Inr \<lparr>SampleRate = sr, Samples = s2\<rparr>\<rparr>) db audioPath)"
proof (intro conjI allI impI)
  fix filePath wavInfo
  assume "ConvertToWAV ext audioPath ''recognize_output.wav'' = Inr filePath
      \<and> ReadWavInfo ext filePath = Inr wavInfo \<and> 0 \<le> SampleRate wavInfo"
  then show "Recognize ops ext db audioPath =
          recognizeSamples ops ext db (take (nat (SampleRate wavInfo * 30)) (Samples wavInfo))
            (SampleRate wavInfo)"
    using recognize_limited [of ext audioPath filePath wavInfo ops db] by simp
next
  fix sr :: int and s1 s2 :: "real list"
  assume eq: "take (nat (sr * 30)) s1 = take (nat (sr * 30)) s2"
  let ?e1 = "ext\<lparr>ReadWavInfo := \<lambda>filePath. Inr \<lparr>SampleRate = sr, Samples = s1\<rparr>\<rparr>"
  let ?e2 = "ext\<lparr>ReadWavInfo := \<lambda>filePath. Inr \<lparr>SampleRate = sr, Samples = s2\<rparr>\<rparr>"
  have same: "recognizeSamples ops ?e1 db xs sr = recognizeSamples ops ?e2 db xs sr" for xs
    by (simp add: recognizeSamples_def)
  show "Recognize ops ?e1 db audioPath = Recognize ops ?e2 db audioPath"
  proof (cases "ConvertToWAV ext audioPath ''recognize_output.wav''")
    case (Inl err)
    then show ?thesis by (simp add: Recognize_def)
  next
    case (Inr filePath)
    have 1: "Recognize ops ?e1 db audioPath =
        (if sr < 0 then Inl Panic else recognizeSamples ops ?e1 db (take (nat (sr * 30)) s1) sr)"
      using recognize_limited [of ?e1 audioPath filePath "\<lparr>SampleRate = sr, Samples = s1\<rparr>" ops db] Inr
      by simp
    have 2: "Recognize ops ?e2 db audioPath =
        (if sr < 0 then Inl Panic else recognizeSamples ops ?e2 db (take (nat (sr * 30)) s2) sr)"
      using recognize_limited [of ?e2 audioPath filePath "\<lparr>SampleRate = sr, Samples = s2\<rparr>" ops db] Inr
      by simp
    show ?thesis unfolding 1 2 eq same ..
  qed
qed

lemma example_recognize:
  "Recognize ops (examplePipeline (replicate 30 0 @ [1])) exampleStore ''clip.mp3'' = Inr []"
proof -
  have "take (nat (1 * 30)) (replicate 30 (0::real) @ [1]) = replicate 30 0" by simp
  then show ?thesis
    using recognize_limited [of "examplePipeline (replicate 30 0 @ [1])" "''clip.mp3''"
      "''recognize_output.wav''" "\<lparr>SampleRate = 1, Samples = replicate 30 0 @ [1]\<rparr>" ops exampleStore]
    by (simp add: examplePipeline_def recognizeSamples_def PickPeaks_def GenerateFingerprints_def
      generateFingerprintsWithTolerance_def anchorLoop.simps)
qed

theorem Recognize_first_30_seconds_witness:
  "Recognize exactOps (examplePipeline (replicate 30 0 @ [1])) exampleStore ''clip.mp3''
     = Recognize exactOps (examplePipeline (replicate 30 0 @ [2, 3])) exampleStore ''clip.mp3''
   \<and> Recognize exactOps (examplePipeline (replicate 30 0 @ [1])) exampleStore ''clip.mp3'' = Inr []"
proof -
  have t: "take (nat (1 * 30)) (replicate 30 (0::real) @ [1]) = take (nat (1 * 30)) (replicate 30 0 @ [2, 3])"
    by simp
  have e: "(examplePipeline xs)\<lparr>ReadWavInfo := \<lambda>filePath. Inr \<lparr>SampleRate = 1, Samples = ys\<rparr>\<rparr>
      = examplePipeline ys" for xs ys
    by (simp add: examplePipeline_def)
  from Recognize_first_30_seconds [where ops = exactOps and ext = "examplePipeline []"
      and audioPath = "''clip.mp3''" and db = exampleStore, THEN conjunct2, rule_format, OF t]
  show ?thesis unfolding e using example_recognize by simp
qed

section \<open>The microphone buffer\<close>

lemma lastN_append: "lastN n (lastN n xs @ ys) = lastN n (xs @ ys)"
proof (cases "length xs \<le> n")
  case True
  then show ?thesis by (simp add: lastN_def)
next
  case False
  then have "length xs + length ys - (length xs - n + n) + (length xs - n) = length xs + length ys - n"
    by simp
  with False show ?thesis by (simp add: lastN_def)
qed

lemma length_lastN: "length (lastN n xs) \<le> n"
  by (simp add: lastN_def)

lemma trim_lastN:
  assumes "0 \<le> M"
  shows "(if int (length buf) > M then
                 (case slice_from buf (int (length buf) - M) of
                    None \<Rightarrow> Inl Panic
                  | Some src \<Rightarrow>
                      (case slice_to (go_copy buf src) M of
                         None \<Rightarrow> Inl Panic
                       | Some b \<Rightarrow> Inr b))
               else Inr buf) = Inr (lastN (nat M) buf)"
proof (cases "int (length buf) > M")
  case True
  then have n: "nat M < length buf" using assms by linarith
  have r: "nat (int (length buf) - M) = length buf - nat M" using assms by linarith
  have s: "slice_from buf (int (length buf) - M) = Some (drop (length buf - nat M) buf)"
    using True assms by (simp add: slice_from_def r)
  have c: "go_copy buf (drop (length buf - nat M) buf) = drop (length buf - nat M) buf @ drop (nat M) buf"
    using n by (simp add: go_copy_def Let_def min_def)
  have "slice_to (drop (length buf - nat M) buf @ drop (nat M) buf) M = Some (drop (length buf - nat M) buf)"
    using n assms by (simp add: slice_to_def)
  with True s c show ?thesis by (simp add: lastN_def)
next
  case False
  then have "length buf \<le> nat M" by linarith
  with False show ?thesis by (simp add: lastN_def)
qed

lemma audioCallback_step:
  assumes "0 \<le> sampleRate mr" "inp \<noteq> []"
  shows "\<exists>seg. audioCallback mr inp =
     Inr (mr\<lparr>audioBuffer := lastN (nat (sampleRate mr * 10)) (audioBuffer mr @ inp)\<rparr>, seg)"
proof -
  have m: "0 \<le> sampleRate mr * 10" using assms by simp
  have r: "\<not> sampleRate mr * 5 < 0" using assms by simp
  show ?thesis
    using assms unfolding audioCallback_def Let_def BUFFER_DURATION_def trim_lastN [OF m]
    by (simp add: slice_from_def r)
qed

lemma runCallbacks_buffer:
  assumes "0 \<le> sampleRate mr" "length (audioBuffer mr) \<le> nat (sampleRate mr * 10)"
  shows "\<exists>mr'. runCallbacks mr ins = Inr mr' \<and> sampleRate mr' = sampleRate mr \<and>
      audioBuffer mr' = lastN (nat (sampleRate mr * 10)) (audioBuffer mr @ concat ins)"
  using assms
proof (induction ins arbitrary: mr)
  case Nil
  then show ?case by (simp add: lastN_def)
next
  case (Cons inp rest)
  let ?M = "nat (sampleRate mr * 10)"
  show ?case
  proof (cases "inp = []")
    case True
    then have "audioCallback mr inp = Inr (mr, None)" by (simp add: audioCallback_def)
    with Cons True show ?thesis by simp
  next
    case False
    from audioCallback_step [OF Cons.prems(1) False] obtain seg where
      s: "audioCallback mr inp = Inr (mr\<lparr>audioBuffer := lastN ?M (audioBuffer mr @ inp)\<rparr>, seg)" by blast
    let ?mr = "mr\<lparr>audioBuffer := lastN ?M (audioBuffer mr @ inp)\<rparr>"
    have "0 \<le> sampleRate ?mr" using Cons.prems by simp
    moreover have "length (audioBuffer ?mr) \<le> nat (sampleRate ?mr * 10)" by (simp add: length_lastN)
    ultimately obtain mr' where "runCallbacks ?mr rest = Inr mr'" "sampleRate mr' = sampleRate ?mr"
       "audioBuffer mr' = lastN (nat (sampleRate ?mr * 10)) (audioBuffer ?mr @ concat rest)"
      using Cons.IH [of ?mr] by blast
    then show ?thesis using s by (simp add: lastN_append)
  qed
qed

text \<open>
  Claim C9: starting from a new recorder, after any sequence of capture callbacks the
  buffer holds the most recent 441 000 samples delivered so far (all of them while there are
  fewer), hence never more than 441 000 samples, ten seconds at 44.1 kHz.
\<close>

theorem audioBuffer_most_recent: "\<exists>mr'. runCallbacks NewMicrophoneRecorder ins = Inr mr' \<and>
     audioBuffer mr' = lastN 441000 (concat ins) \<and> length (audioBuffer mr') \<le> 441000"
proof -
  have "nat (sampleRate NewMicrophoneRecorder * 10) = 441000"
    by (simp add: NewMicrophoneRecorder_def SAMPLE_RATE_def)
  moreover have "audioBuffer NewMicrophoneRecorder = []" by (simp add: NewMicrophoneRecorder_def)
  moreover have "0 \<le> sampleRate NewMicrophoneRecorder" by (simp add: NewMicrophoneRecorder_def SAMPLE_RATE_def)
  ultimately show ?thesis
  using runCallbacks_buffer [of NewMicrophoneRecorder ins] length_lastN [of 441000 "concat ins"]
  by auto
qed


end
